theory Spec2Isabelle
  imports Complex_Main "HOL-Library.Multiset" "HOL-Library.AList"
begin

section \<open>Python failures as values\<close>

text \<open>
  Every exception the modelled Python code can raise is a value of this type; a function
  that may raise returns \<open>py_error + 'a\<close> with \<open>Inl\<close> for the exception.
\<close>

datatype py_error = IndexError | KeyError | TypeError | NameError | ZeroDivisionError | InvalidArgument

section \<open>The Metropolis-Hastings optimizer (hopfield\_mcmc.py)\<close>

subsection \<open>The acceptance function\<close>

text \<open>
  \<^verbatim>\<open>accept(curr, proposal, beta)\<close> is a statement sequence: an \<^verbatim>\<open>if/else\<close> whose two arms both
  return, followed by the Metropolis draw. A statement either returns a value (\<open>Some\<close>) or
  falls through to the next statement (\<open>None\<close>). The value carries the return site that
  produced it, so that reachability of the last two lines can be stated. Scores are reals;
  \<open>draw p\<close> stands for the draw \<^verbatim>\<open>np.random.binomial(1, p)\<close>.
\<close>

datatype return_site = Improving | Non_Improving | Metropolis

definition accept_if_else :: "real \<Rightarrow> real \<Rightarrow> (bool \<times> return_site) option" where
  "accept_if_else current proposal =
     (if proposal > current then Some (True, Improving) else Some (False, Non_Improving))"

definition accept_draw :: "(real \<Rightarrow> nat) \<Rightarrow> real \<Rightarrow> real \<Rightarrow> real \<Rightarrow> bool \<times> return_site" where
  "accept_draw draw current proposal beta =
     (let p = exp (-1 * beta * (proposal / current)) in (draw p = 1, Metropolis))"

definition accept_traced :: "(real \<Rightarrow> nat) \<Rightarrow> real \<Rightarrow> real \<Rightarrow> real \<Rightarrow> bool \<times> return_site" where
  "accept_traced draw current proposal beta =
     (case accept_if_else current proposal of
        Some r \<Rightarrow> r
      | None \<Rightarrow> accept_draw draw current proposal beta)"

definition accept :: "(real \<Rightarrow> nat) \<Rightarrow> real \<Rightarrow> real \<Rightarrow> real \<Rightarrow> bool" where
  "accept draw current proposal beta = fst (accept_traced draw current proposal beta)"

subsection \<open>Collaborators of the search\<close>

text \<open>
  The search works on models of an abstract type \<open>'g\<close> through collaborators that are not
  part of the optimizer: random topologies, the retrievability estimate, the wiring cost,
  the edge sampler and the rewiring move. The stochastic ones thread a generator state
  \<open>'r\<close>. \<open>random_model n e ps\<close> stands for
  \<^verbatim>\<open>random_edges(n, e)\<close>, \<^verbatim>\<open>HopfieldGraph(graph, ps)\<close> and \<^verbatim>\<open>train()\<close>;
  \<open>copy\<close> is the identity on values.
\<close>

record ('g, 'r) collaborators =
  random_model :: "nat \<Rightarrow> int \<Rightarrow> int list list \<Rightarrow> 'r \<Rightarrow> 'g \<times> 'r"
  hopfield_performance :: "'g \<Rightarrow> 'r \<Rightarrow> real \<times> 'r"
  wiring_cost_energy :: "'g \<Rightarrow> real"
  random_edge :: "'g \<Rightarrow> 'r \<Rightarrow> (nat \<times> nat) \<times> 'r"
  rewire :: "nat \<Rightarrow> nat \<Rightarrow> 'g \<Rightarrow> 'r \<Rightarrow> 'g \<times> 'r"
  prop_in_group_edges :: "'g \<Rightarrow> real"

definition score ::
  "('g, 'r) collaborators \<Rightarrow> real \<Rightarrow> 'g \<Rightarrow> real option \<Rightarrow> real option \<Rightarrow> 'r \<Rightarrow> real \<times> 'r" where
  "score C alpha graph perf cost r =
     (let (perf', r') = (case perf of None \<Rightarrow> hopfield_performance C graph r | Some p \<Rightarrow> (p, r));
          cost' = (case cost of None \<Rightarrow> wiring_cost_energy C graph | Some c \<Rightarrow> c);
          cost_norm = -1 * ((cost' - 5000) / 3000)
      in (alpha * perf' + (1 - alpha) * cost_norm, r'))"

subsection \<open>Initial state and warm start\<close>

text \<open>
  \<^verbatim>\<open>random_edges(len(patterns[0]), num_edges)\<close> and the two lines after it. \<^verbatim>\<open>patterns\<close>
  defaults to \<^verbatim>\<open>None\<close>, whose subscript raises TypeError; an empty list raises IndexError.
\<close>

definition build_random ::
  "('g, 'r) collaborators \<Rightarrow> int list list option \<Rightarrow> int \<Rightarrow> 'r \<Rightarrow> py_error + ('g \<times> 'r)" where
  "build_random C patterns num_edges r =
     (case patterns of
        None \<Rightarrow> Inl TypeError
      | Some [] \<Rightarrow> Inl IndexError
      | Some (p # ps) \<Rightarrow> Inr (random_model C (length p) num_edges (p # ps) r))"

text \<open>
  The loop \<^verbatim>\<open>while curr_score < .4\<close>. It has no iteration bound, so it is a partial
  function: \<open>None\<close> is a run that never leaves the loop.
\<close>

partial_function (option) warm_start ::
  "('g, 'r) collaborators \<Rightarrow> real \<Rightarrow> int list list option \<Rightarrow> int \<Rightarrow> 'g \<Rightarrow> real \<Rightarrow> 'r
     \<Rightarrow> (py_error + ('g \<times> real \<times> 'r)) option" where
  "warm_start C alpha patterns num_edges hop_graph curr_score r =
     (if curr_score < 0.4 then
        (case build_random C patterns num_edges r of
           Inl e \<Rightarrow> Some (Inl e)
         | Inr (g, r1) \<Rightarrow>
             (case score C alpha g None None r1 of
                (s, r2) \<Rightarrow> warm_start C alpha patterns num_edges g s r2))
      else Some (Inr (hop_graph, curr_score, r)))"

text \<open>
  Lines 42 to 57: the block under \<^verbatim>\<open>if not hop_graph\<close>, the first score, and the
  warm-start loop. The result is the current model, its score and the generator state at
  line 59. A model that is not given is \<open>None\<close>.
\<close>

definition initial_model ::
  "('g, 'r) collaborators \<Rightarrow> real \<Rightarrow> int list list option \<Rightarrow> int \<Rightarrow> 'g option \<Rightarrow> 'r
     \<Rightarrow> (py_error + ('g \<times> real \<times> 'r)) option" where
  "initial_model C alpha patterns num_edges hop_graph r =
     (case (case hop_graph of
              None \<Rightarrow> build_random C patterns num_edges r
            | Some g \<Rightarrow> Inr (g, r)) of
        Inl e \<Rightarrow> Some (Inl e)
      | Inr (g, r1) \<Rightarrow>
          (case score C alpha g None None r1 of
             (s, r2) \<Rightarrow> warm_start C alpha patterns num_edges g s r2))"

subsection \<open>The search loop\<close>

record ('g, 'r) search_state =
  hop_graph :: 'g
  curr_score :: real
  best_graph :: 'g
  best_score :: real
  run_count :: nat
  fp_count :: nat
  perf_hist :: "real list"
  cost_hist :: "real list"
  in_group_hist :: "real list"
  rng :: 'r

definition start_state :: "'g \<Rightarrow> real \<Rightarrow> 'r \<Rightarrow> ('g, 'r) search_state" where
  "start_state g s r =
     \<lparr>hop_graph = g, curr_score = s, best_graph = g, best_score = s, run_count = 0,
      fp_count = 0, perf_hist = [], cost_hist = [], in_group_hist = [], rng = r\<rparr>"

text \<open>
  The rewiring proposal: \<^verbatim>\<open>moves_per_iter\<close> times, an edge of the current model is drawn and
  rewired in the copy.
\<close>

fun rewiring_moves ::
  "('g, 'r) collaborators \<Rightarrow> nat \<Rightarrow> 'g \<Rightarrow> 'g \<Rightarrow> 'r \<Rightarrow> 'g \<times> 'r" where
  "rewiring_moves C 0 current proposal r = (proposal, r)"
| "rewiring_moves C (Suc n) current proposal r =
     (case random_edge C current r of
        ((i, j), r1) \<Rightarrow>
          (case rewire C i j proposal r1 of
             (proposal', r2) \<Rightarrow> rewiring_moves C n current proposal' r2))"

text \<open>
  Lines 86 to 92: the proposal is scored and replaces the current model when accepted.
\<close>

definition decide ::
  "(real \<Rightarrow> nat) \<Rightarrow> real \<Rightarrow> 'g \<Rightarrow> real \<Rightarrow> ('g, 'r) search_state \<Rightarrow> ('g, 'r) search_state" where
  "decide draw beta proposal proposal_score st =
     (if accept draw (curr_score st) proposal_score beta
      then st\<lparr>hop_graph := proposal, curr_score := proposal_score, fp_count := 0\<rparr>
      else st\<lparr>fp_count := fp_count st + 1\<rparr>)"

text \<open>
  Lines 93 to 106: the current model is scored again, the histories grow, the best model
  is updated and the iteration is counted.
\<close>

definition bookkeeping ::
  "('g, 'r) collaborators \<Rightarrow> real \<Rightarrow> 'r \<Rightarrow> ('g, 'r) search_state \<Rightarrow> ('g, 'r) search_state" where
  "bookkeeping C alpha r2 st =
     (case hopfield_performance C (hop_graph st) r2 of
        (curr_perf, r3) \<Rightarrow>
          (let curr_cost = wiring_cost_energy C (hop_graph st);
               new_score = fst (score C alpha (hop_graph st) (Some curr_perf) (Some curr_cost) r3);
               in_group = (if run_count st mod 5 = 0
                           then in_group_hist st @ [prop_in_group_edges C (hop_graph st)]
                           else in_group_hist st);
               better = new_score > best_score st
           in st\<lparr>curr_score := new_score,
                 perf_hist := perf_hist st @ [curr_perf],
                 cost_hist := cost_hist st @ [curr_cost],
                 in_group_hist := in_group,
                 best_score := (if better then new_score else best_score st),
                 best_graph := (if better then hop_graph st else best_graph st),
                 run_count := run_count st + 1,
                 rng := r3\<rparr>))"

text \<open>
  Lines 108 to 110. The snapshot reads the undefined name \<^verbatim>\<open>filepath\<close> (the parameter is
  \<^verbatim>\<open>save_path\<close>), so taking it raises NameError; \<^verbatim>\<open>run_count % save_freq\<close> raises
  ZeroDivisionError when \<^verbatim>\<open>save_freq\<close> is 0.
\<close>

definition snapshot ::
  "bool \<Rightarrow> int \<Rightarrow> ('g, 'r) search_state \<Rightarrow> py_error + ('g, 'r) search_state" where
  "snapshot save_intermediate save_freq st =
     (if save_intermediate
      then (if save_freq = 0 then Inl ZeroDivisionError
            else if int (run_count st) mod save_freq = 0 then Inl NameError
            else Inr st)
      else Inr st)"

text \<open>One pass through the body of \<^verbatim>\<open>while run_count < max_iter\<close>.\<close>

definition search_step ::
  "('g, 'r) collaborators \<Rightarrow> (real \<Rightarrow> nat) \<Rightarrow> int \<Rightarrow> real \<Rightarrow> real \<Rightarrow> bool \<Rightarrow> int
     \<Rightarrow> ('g, 'r) search_state \<Rightarrow> py_error + ('g, 'r) search_state" where
  "search_step C draw moves_per_iter beta alpha save_intermediate save_freq st =
     (case rewiring_moves C (nat moves_per_iter) (hop_graph st) (hop_graph st) (rng st) of
        (proposal, r1) \<Rightarrow>
          (case score C alpha proposal None None r1 of
             (proposal_score, r2) \<Rightarrow>
               snapshot save_intermediate save_freq
                 (bookkeeping C alpha r2 (decide draw beta proposal proposal_score st))))"

lemma run_count_decide: "run_count (decide draw beta proposal proposal_score st) = run_count st"
  by (simp add: decide_def)

lemma run_count_bookkeeping: "run_count (bookkeeping C alpha r st) = Suc (run_count st)"
  by (simp add: bookkeeping_def Let_def split: prod.split)

lemma snapshot_Inr: "snapshot save_intermediate save_freq st = Inr st' \<Longrightarrow> st' = st"
  by (simp add: snapshot_def split: if_splits)

lemma search_step_run_count:
  assumes "search_step C draw moves_per_iter beta alpha save_intermediate save_freq st = Inr st'"
  shows "run_count st' = Suc (run_count st)"
proof -
  obtain proposal r1 where m: "rewiring_moves C (nat moves_per_iter) (hop_graph st) (hop_graph st) (rng st) = (proposal, r1)"
    by (cases "rewiring_moves C (nat moves_per_iter) (hop_graph st) (hop_graph st) (rng st)")
  obtain ps r2 where sc: "score C alpha proposal None None r1 = (ps, r2)"
    by (cases "score C alpha proposal None None r1")
  from assms m sc have "st' = bookkeeping C alpha r2 (decide draw beta proposal ps st)"
    by (auto simp add: search_step_def dest: snapshot_Inr)
  then show ?thesis
    by (simp add: run_count_bookkeeping run_count_decide)
qed

function search_loop ::
  "('g, 'r) collaborators \<Rightarrow> (real \<Rightarrow> nat) \<Rightarrow> int \<Rightarrow> int \<Rightarrow> real \<Rightarrow> real \<Rightarrow> bool \<Rightarrow> int
     \<Rightarrow> ('g, 'r) search_state \<Rightarrow> py_error + ('g, 'r) search_state" where
  "search_loop C draw max_iter moves_per_iter beta alpha save_intermediate save_freq st =
     (if int (run_count st) < max_iter then
        (case search_step C draw moves_per_iter beta alpha save_intermediate save_freq st of
           Inl e \<Rightarrow> Inl e
         | Inr st' \<Rightarrow>
             search_loop C draw max_iter moves_per_iter beta alpha save_intermediate save_freq st')
      else Inr st)"
  by pat_completeness auto
termination
proof (relation "measure (\<lambda>(C, d, max_iter, m, beta, alpha, si, sf, st). nat (max_iter - int (run_count st)))")
  show "wf (measure (\<lambda>(C :: ('g, 'r) collaborators, d :: real \<Rightarrow> nat, max_iter :: int, m :: int,
      beta :: real, alpha :: real, si :: bool, sf :: int, st :: ('g, 'r) search_state).
      nat (max_iter - int (run_count st))))"
    by simp
next
  fix C :: "('g, 'r) collaborators" and draw max_iter moves_per_iter beta alpha
    save_intermediate save_freq and st st' :: "('g, 'r) search_state"
  assume "int (run_count st) < max_iter"
    and "search_step C draw moves_per_iter beta alpha save_intermediate save_freq st = Inr st'"
  then show "((C, draw, max_iter, moves_per_iter, beta, alpha, save_intermediate, save_freq, st'),
              (C, draw, max_iter, moves_per_iter, beta, alpha, save_intermediate, save_freq, st))
             \<in> measure (\<lambda>(C, d, max_iter, m, beta, alpha, si, sf, st). nat (max_iter - int (run_count st)))"
    by (simp add: search_step_run_count)
qed

text \<open>
  \<^verbatim>\<open>metropolis_hastings\<close>: the initial phase, the search loop, and the returned pair of the
  best model and the three histories. \<open>None\<close> is a warm start that never ends.
\<close>

definition metropolis_hastings ::
  "('g, 'r) collaborators \<Rightarrow> (real \<Rightarrow> nat) \<Rightarrow> int list list option \<Rightarrow> int \<Rightarrow> int \<Rightarrow> int
     \<Rightarrow> real \<Rightarrow> 'g option \<Rightarrow> real \<Rightarrow> bool \<Rightarrow> int \<Rightarrow> 'r
     \<Rightarrow> (py_error + ('g \<times> real list list)) option" where
  "metropolis_hastings C draw patterns num_edges max_iter moves_per_iter beta hop_graph0
       alpha save_intermediate save_freq r =
     (case initial_model C alpha patterns num_edges hop_graph0 r of
        None \<Rightarrow> None
      | Some (Inl e) \<Rightarrow> Some (Inl e)
      | Some (Inr (g, s, r1)) \<Rightarrow>
          (case search_loop C draw max_iter moves_per_iter beta alpha save_intermediate
                  save_freq (start_state g s r1) of
             Inl e \<Rightarrow> Some (Inl e)
           | Inr st \<Rightarrow> Some (Inr (best_graph st, [perf_hist st, cost_hist st, in_group_hist st]))))"

subsection \<open>Collaborators for concrete runs\<close>

text \<open>
  Models are numbers: model 0 retrieves nothing, every other model retrieves everything,
  all cost 5000, and the random topology built from generator state \<open>r\<close> is model
  \<open>r + 1\<close>.
\<close>

definition example_collaborators :: "(nat, nat) collaborators" where
  "example_collaborators =
     \<lparr>random_model = (\<lambda>n e ps r. (Suc r, Suc r)),
      hopfield_performance = (\<lambda>g r. (if g = 0 then 0 else 1, r)),
      wiring_cost_energy = (\<lambda>g. 5000),
      random_edge = (\<lambda>g r. ((0, 1), r)),
      rewire = (\<lambda>i j g r. (g, r)),
      prop_in_group_edges = (\<lambda>g. 0)\<rparr>"

subsection \<open>Facts about the optimizer\<close>

lemma score_example:
  "score example_collaborators (1/2) g None None r = (if g = 0 then 0 else 1/2, r)"
  by (simp add: score_def example_collaborators_def)

lemma build_example:
  "build_random example_collaborators (Some [[1, 0]]) 1 r = Inr (Suc r, Suc r)"
  by (simp add: build_random_def example_collaborators_def)

lemma initial_example_0:
  "initial_model example_collaborators (1/2) (Some [[1, 0]]) 1 (Some 0) 0 = Some (Inr (1, 1/2, 1))"
  by (simp add: initial_model_def score_example build_example warm_start.simps)

lemma warm_start_floor_aux:
  assumes "warm_start C alpha patterns num_edges g s r = Some y"
  shows "case y of Inl e \<Rightarrow> True | Inr (g', s', r') \<Rightarrow> s' \<ge> 0.4"
proof (rule warm_start.raw_induct
    [where P = "\<lambda>C alpha patterns num_edges g s r y.
                  case y of Inl e \<Rightarrow> True | Inr (g', s', r') \<Rightarrow> s' \<ge> 0.4", OF _ assms])
  fix ws :: "('a, 'b) collaborators \<Rightarrow> real \<Rightarrow> int list list option \<Rightarrow> int \<Rightarrow> 'a \<Rightarrow> real \<Rightarrow> 'b
     \<Rightarrow> (py_error + ('a \<times> real \<times> 'b)) option"
    and C alpha patterns num_edges hop_graph curr_score r y
  assume IH: "\<And>C alpha patterns num_edges hop_graph curr_score r y.
        ws C alpha patterns num_edges hop_graph curr_score r = Some y \<Longrightarrow>
        (case y of Inl e \<Rightarrow> True | Inr (g', s', r') \<Rightarrow> s' \<ge> 0.4)"
    and step: "(if curr_score < 0.4
      then case build_random C patterns num_edges r of Inl e \<Rightarrow> Some (Inl e)
           | Inr (g, r1) \<Rightarrow>
               case score C alpha g None None r1 of
               (s, r2) \<Rightarrow> ws C alpha patterns num_edges g s r2
      else Some (Inr (hop_graph, curr_score, r))) = Some y"
  show "case y of Inl e \<Rightarrow> True | Inr (g', s', r') \<Rightarrow> s' \<ge> 0.4"
  proof (cases "curr_score < 0.4")
    case False
    with step show ?thesis by auto
  next
    case True
    show ?thesis
    proof (cases "build_random C patterns num_edges r")
      case (Inl e)
      with True step show ?thesis by auto
    next
      case (Inr gr)
      obtain g r1 where gr: "gr = (g, r1)" by (cases gr)
      obtain s r2 where sc: "score C alpha g None None r1 = (s, r2)"
        by (cases "score C alpha g None None r1")
      from True step Inr gr sc have "ws C alpha patterns num_edges g s r2 = Some y" by simp
      then show ?thesis by (rule IH)
    qed
  qed
qed

lemma initial_model_floor:
  "initial_model C alpha patterns num_edges hg r = Some (Inr (g', s', r')) \<Longrightarrow> s' \<ge> 0.4"
  by (auto simp: initial_model_def split: sum.splits prod.splits dest: warm_start_floor_aux)

text \<open>
  C1. \<^verbatim>\<open>accept(curr, prop)\<close> is true exactly when \<^verbatim>\<open>prop > curr\<close>, whatever the draw and
  whatever \<^verbatim>\<open>beta\<close>, and the value never comes from the Metropolis lines after the
  \<^verbatim>\<open>if/else\<close>.
\<close>

theorem accept_iff_improving:
  "accept draw current proposal beta = (proposal > current)
   \<and> snd (accept_traced draw current proposal beta) \<noteq> Metropolis"
  by (simp add: accept_def accept_traced_def accept_if_else_def)

text \<open>
  C2, as the code has it. The warm-start loop stands after the block under
  \<^verbatim>\<open>if not hop_graph\<close>, so it runs for a supplied model too. A supplied model whose first
  score is at least 0.4 is the initial current model; one that scores below 0.4 is dropped
  and the run continues as if no model had been given. Whatever the start, a model that
  leaves the initial phase has a score of at least 0.4.
\<close>

theorem warm_start_for_any_start:
  "(score C alpha g None None r = (s, r1) \<longrightarrow>
      (s \<ge> 0.4 \<longrightarrow> initial_model C alpha patterns num_edges (Some g) r = Some (Inr (g, s, r1))) \<and>
      (s < 0.4 \<longrightarrow> initial_model C alpha patterns num_edges (Some g) r
                     = initial_model C alpha patterns num_edges None r1))
   \<and> (initial_model C alpha patterns num_edges hg r = Some (Inr (g', s', r')) \<longrightarrow> s' \<ge> 0.4)"
proof (intro conjI impI)
  assume sc: "score C alpha g None None r = (s, r1)" and "s \<ge> 0.4"
  then show "initial_model C alpha patterns num_edges (Some g) r = Some (Inr (g, s, r1))"
    by (simp add: initial_model_def warm_start.simps)
next
  assume sc: "score C alpha g None None r = (s, r1)" and "s < 0.4"
  then show "initial_model C alpha patterns num_edges (Some g) r
               = initial_model C alpha patterns num_edges None r1"
    by (simp add: initial_model_def warm_start.simps [of C alpha patterns num_edges g s r1])
next
  assume "initial_model C alpha patterns num_edges hg r = Some (Inr (g', s', r'))"
  then show "s' \<ge> 0.4" by (rule initial_model_floor)
qed

theorem warm_start_for_any_start_witness:
  "initial_model example_collaborators (1/2) (Some [[1, 0]]) 1 (Some 5) 0 = Some (Inr (5, 1/2, 0))
   \<and> initial_model example_collaborators (1/2) (Some [[1, 0]]) 1 (Some 0) 0
       = initial_model example_collaborators (1/2) (Some [[1, 0]]) 1 None 0"
  using warm_start_for_any_start [of example_collaborators "1/2" 5 0 "1/2" 0 "Some [[1, 0]]" 1 "Some 5" 5 "1/2" 0]
    warm_start_for_any_start [of example_collaborators "1/2" 0 0 0 0 "Some [[1, 0]]" 1 "Some 5" 5 "1/2" 0]
  by (simp add: score_example)

text \<open>
  C2 as stated fails: the supplied model 0 scores 0 and the search starts from the random
  model 1 instead.
\<close>

theorem supplied_model_replaced:
  "initial_model example_collaborators (1/2) (Some [[1, 0]]) 1 (Some 0) 0 = Some (Inr (1, 1/2, 1))"
  by (rule initial_example_0)

text \<open>
  C9. With \<^verbatim>\<open>max_iter = 0\<close> the loop body never runs: the start state is returned as it
  is, and the optimizer returns the model that left the initial phase together with three
  empty histories (and fails or diverges exactly when the initial phase does).
\<close>

theorem max_iter_zero:
  "metropolis_hastings C draw patterns num_edges 0 moves beta hop_graph0 alpha si sf r =
     map_option (map_sum id (\<lambda>(g, s, r'). (g, [[], [], []])))
       (initial_model C alpha patterns num_edges hop_graph0 r)
   \<and> search_loop C draw 0 moves beta alpha si sf (start_state g s r') = Inr (start_state g s r')"
  by (simp add: metropolis_hastings_def start_state_def split: option.split sum.split prod.split)

theorem max_iter_zero_witness:
  "metropolis_hastings example_collaborators (\<lambda>p. 0) (Some [[1, 0]]) 1 0 1 (3/10) (Some 0) (1/2) False 10000 0
     = Some (Inr (1, [[], [], []]))"
  using max_iter_zero [of example_collaborators "\<lambda>p. 0" "Some [[1, 0]]" 1 1 "3/10" "Some 0" "1/2" False 10000 0]
  by (simp add: initial_example_0)

section \<open>The Hopfield model\<close>

subsection \<open>Matrices\<close>

text \<open>
  A matrix is a list of rows. \<open>getitem2 m i j\<close> is the read \<^verbatim>\<open>m[i][j]\<close> and
  \<open>setitem2 m i j v\<close> the write \<^verbatim>\<open>m[i][j] = v\<close>; both raise IndexError out of range.
  Indices are never negative in the code modelled here.
\<close>

definition getitem2 :: "'a list list \<Rightarrow> nat \<Rightarrow> nat \<Rightarrow> py_error + 'a" where
  "getitem2 m i j =
     (if i < length m \<and> j < length (m ! i) then Inr (m ! i ! j) else Inl IndexError)"

definition setitem2 :: "'a list list \<Rightarrow> nat \<Rightarrow> nat \<Rightarrow> 'a \<Rightarrow> py_error + 'a list list" where
  "setitem2 m i j v =
     (if i < length m \<and> j < length (m ! i) then Inr (m[i := (m ! i)[j := v]])
      else Inl IndexError)"

definition matrix_of :: "nat \<Rightarrow> (nat \<Rightarrow> nat \<Rightarrow> 'a) \<Rightarrow> 'a list list" where
  "matrix_of n f = map (\<lambda>i. map (\<lambda>j. f i j) [0..<n]) [0..<n]"

subsection \<open>The model class\<close>

text \<open>
  Modelled from the spec: the class \<^verbatim>\<open>HopfieldGraph\<close> (module \<^verbatim>\<open>graphs.HopfieldGraph\<close>) and
  the graph builders it is constructed from are not among the source files. The record
  has the attributes the source files read and write; the operations follow sections 3,
  4.1 and 4.2 of the specification: an \<open>N \<times> N\<close> 0/1 adjacency matrix, a real weight
  matrix that is 0 wherever there is no edge, the Hebbian rule over the stored patterns
  with bits mapped to \<open>-1\<close> and \<open>+1\<close> and self-weights 0, training of one edge that gives the
  value full training gives, an edge count over the pairs \<open>i < j\<close>, copies by value, and the
  per-node views refreshed on demand. \<open>full_weights\<close> holds the trained weight of every
  pair, as for a fully connected model. A graph is given by its adjacency matrix.
  Mismatched pattern lengths are refused with InvalidArgument (sections 4.5 and 7).
\<close>

record hopfield_graph =
  nodes :: "nat list list"
  adj_matrix :: "int list list"
  weights :: "real list list"
  full_weights :: "real list list"
  stored_states :: "int list list"

definition fully_connected :: "nat \<Rightarrow> int list list" where
  "fully_connected n = matrix_of n (\<lambda>i j. if i = j then 0 else 1)"

definition empty_graph :: "nat \<Rightarrow> int list list" where
  "empty_graph n = matrix_of n (\<lambda>i j. 0)"

definition node_views :: "int list list \<Rightarrow> nat list list" where
  "node_views adj = map (\<lambda>row. filter (\<lambda>j. row ! j \<noteq> 0) [0..<length row]) adj"

definition HopfieldGraph :: "int list list \<Rightarrow> int list list \<Rightarrow> py_error + hopfield_graph" where
  "HopfieldGraph graph states =
     (if states = [] \<or> list_ex (\<lambda>s. length s \<noteq> length graph) states then Inl InvalidArgument
      else Inr \<lparr>nodes = node_views graph, adj_matrix = graph,
                weights = matrix_of (length graph) (\<lambda>i j. 0),
                full_weights = matrix_of (length graph) (\<lambda>i j. 0),
                stored_states = states\<rparr>)"

definition bipolar :: "int \<Rightarrow> real" where
  "bipolar b = 2 * real_of_int b - 1"

definition hebbian :: "int list list \<Rightarrow> nat \<Rightarrow> nat \<Rightarrow> real" where
  "hebbian states i j =
     (if i = j then 0
      else (\<Sum>s\<leftarrow>states. bipolar (s ! i) * bipolar (s ! j)) / real (length states))"

definition train :: "hopfield_graph \<Rightarrow> hopfield_graph" where
  "train g =
     (let n = length (adj_matrix g) in
      g\<lparr>weights := matrix_of n
            (\<lambda>i j. if getitem2 (adj_matrix g) i j \<in> {Inl IndexError, Inr 0} then 0
                    else hebbian (stored_states g) i j),
        full_weights := matrix_of n (hebbian (stored_states g))\<rparr>)"

definition train_edge :: "hopfield_graph \<Rightarrow> nat \<Rightarrow> nat \<Rightarrow> py_error + hopfield_graph" where
  "train_edge g i j =
     (case getitem2 (adj_matrix g) i j of
        Inl e \<Rightarrow> Inl e
      | Inr a \<Rightarrow>
          (let w = (if a = 0 then 0 else hebbian (stored_states g) i j) in
           case setitem2 (weights g) i j w of
             Inl e \<Rightarrow> Inl e
           | Inr w1 \<Rightarrow>
               (case setitem2 w1 j i w of
                  Inl e \<Rightarrow> Inl e
                | Inr w2 \<Rightarrow> Inr (g\<lparr>weights := w2\<rparr>))))"

definition upper_pairs :: "nat \<Rightarrow> (nat \<times> nat) list" where
  "upper_pairs n = concat (map (\<lambda>j. map (\<lambda>i. (i, j)) [0..<j]) [0..<n])"

definition num_edges :: "hopfield_graph \<Rightarrow> nat" where
  "num_edges g =
     length (filter (\<lambda>(i, j). getitem2 (adj_matrix g) i j = Inr 1)
               (upper_pairs (length (adj_matrix g))))"

definition copy :: "hopfield_graph \<Rightarrow> hopfield_graph" where
  "copy g = g"

definition set_node_attributes :: "hopfield_graph \<Rightarrow> hopfield_graph" where
  "set_node_attributes g = g\<lparr>nodes := node_views (adj_matrix g)\<rparr>"

section \<open>The priority queue (Python's heapq)\<close>

text \<open>
  The builders keep their candidates in a list managed by \<^verbatim>\<open>heapq.heapify\<close> and
  \<^verbatim>\<open>heapq.heappop\<close> of the Python standard library, whose reference implementation
  (\<^verbatim>\<open>Lib/heapq.py\<close>) is followed here statement by statement, because which of several
  equal priorities is popped depends on it. An \<^verbatim>\<open>Entry\<close> compares by priority alone.
\<close>

datatype 'a entry = Entry (item: 'a) (priority: real)

definition entry_lt :: "'a entry \<Rightarrow> 'a entry \<Rightarrow> bool" where
  "entry_lt a b = (priority a < priority b)"

text \<open>
  \<^verbatim>\<open>_siftdown(heap, startpos, pos)\<close>: the loop moves parents down while the new item is
  smaller, then writes the new item.
\<close>

function siftdown_loop :: "'a entry list \<Rightarrow> 'a entry \<Rightarrow> nat \<Rightarrow> nat \<Rightarrow> 'a entry list" where
  "siftdown_loop heap newitem startpos pos =
     (if pos > startpos then
        (let parentpos = (pos - 1) div 2;
             parent = heap ! parentpos
         in if entry_lt newitem parent
            then siftdown_loop (heap[pos := parent]) newitem startpos parentpos
            else heap[pos := newitem])
      else heap[pos := newitem])"
  by pat_completeness auto
termination
  by (relation "measure (\<lambda>(heap, newitem, startpos, pos). pos)") auto

definition siftdown :: "'a entry list \<Rightarrow> nat \<Rightarrow> nat \<Rightarrow> 'a entry list" where
  "siftdown heap startpos pos = siftdown_loop heap (heap ! pos) startpos pos"

text \<open>
  \<^verbatim>\<open>_siftup(heap, pos)\<close>: the loop bubbles the smaller child up until a leaf is reached
  (\<^verbatim>\<open>childpos\<close> is \<^verbatim>\<open>2*pos + 1\<close> at every test of the loop condition); the new item is
  written there and sifted down towards \<^verbatim>\<open>startpos\<close>.
\<close>

function siftup_loop :: "'a entry list \<Rightarrow> nat \<Rightarrow> nat \<Rightarrow> 'a entry list \<times> nat" where
  "siftup_loop heap endpos pos =
     (let childpos = 2 * pos + 1 in
      if childpos < endpos then
        (let rightpos = childpos + 1;
             childpos' = (if rightpos < endpos \<and> \<not> entry_lt (heap ! childpos) (heap ! rightpos)
                          then rightpos else childpos)
         in siftup_loop (heap[pos := heap ! childpos']) endpos childpos')
      else (heap, pos))"
  by pat_completeness auto
termination
  by (relation "measure (\<lambda>(heap, endpos, pos). endpos - pos)") (auto simp: Let_def)

definition siftup :: "'a entry list \<Rightarrow> nat \<Rightarrow> 'a entry list" where
  "siftup heap pos =
     (let endpos = length heap;
          startpos = pos;
          newitem = heap ! pos
      in case siftup_loop heap endpos pos of
           (heap', pos') \<Rightarrow> siftdown (heap'[pos' := newitem]) startpos pos')"

definition heapify :: "'a entry list \<Rightarrow> 'a entry list" where
  "heapify x = fold (\<lambda>i heap. siftup heap i) (rev [0..<length x div 2]) x"

definition heappop :: "'a entry list \<Rightarrow> py_error + ('a entry \<times> 'a entry list)" where
  "heappop heap =
     (if heap = [] then Inl IndexError
      else (let lastelt = last heap;
                heap1 = butlast heap
            in if heap1 \<noteq> []
               then (let returnitem = heap1 ! 0
                     in Inr (returnitem, siftup (heap1[0 := lastelt]) 0))
               else Inr (lastelt, heap1)))"

text \<open>
  \<^verbatim>\<open>random.shuffle(x)\<close>: for \<open>i\<close> from the last index down to 1, the entries at \<open>i\<close> and at
  a random \<open>j \<le> i\<close> are exchanged. \<open>randbelow i\<close> is the number drawn at step \<open>i\<close>, reduced
  into the range.
\<close>

definition shuffle_list :: "(nat \<Rightarrow> nat) \<Rightarrow> 'a list \<Rightarrow> 'a list" where
  "shuffle_list randbelow x =
     fold (\<lambda>i x. (let j = randbelow i mod (i + 1) in x[i := x ! j, j := x ! i]))
       (rev [1..<length x]) x"

section \<open>Topology builders (hopfield\_models.py)\<close>

subsection \<open>Magnitude pruning\<close>

text \<open>
  Lines 94 to 100: the pairs \<open>(i, j)\<close> with \<open>j < i < N\<close>, in the order of the two loops;
  each existing edge is appended with the magnitude of its weight.
\<close>

definition lower_pairs :: "nat \<Rightarrow> (nat \<times> nat) list" where
  "lower_pairs n = concat (map (\<lambda>i. map (\<lambda>j. (i, j)) [0..<i]) [0..<n])"

fun collect_entries ::
  "hopfield_graph \<Rightarrow> (nat \<times> nat) list \<Rightarrow> (nat \<times> nat) entry list
     \<Rightarrow> py_error + (nat \<times> nat) entry list" where
  "collect_entries hop_net [] pq = Inr pq"
| "collect_entries hop_net ((i, j) # ps) pq =
     (case getitem2 (weights hop_net) i j of
        Inl e \<Rightarrow> Inl e
      | Inr weight \<Rightarrow>
          (case getitem2 (adj_matrix hop_net) i j of
             Inl e \<Rightarrow> Inl e
           | Inr a \<Rightarrow>
               if a = 0 then collect_entries hop_net ps pq
               else collect_entries hop_net ps (pq @ [Entry (i, j) \<bar>weight\<bar>])))"

text \<open>Lines 108 to 111: the four writes that remove one edge.\<close>

definition clear_edge :: "hopfield_graph \<Rightarrow> nat \<times> nat \<Rightarrow> py_error + hopfield_graph" where
  "clear_edge hop_net edge =
     (case setitem2 (weights hop_net) (fst edge) (snd edge) 0 of
        Inl e \<Rightarrow> Inl e
      | Inr w1 \<Rightarrow>
     (case setitem2 w1 (snd edge) (fst edge) 0 of
        Inl e \<Rightarrow> Inl e
      | Inr w2 \<Rightarrow>
     (case setitem2 (adj_matrix hop_net) (fst edge) (snd edge) 0 of
        Inl e \<Rightarrow> Inl e
      | Inr a1 \<Rightarrow>
     (case setitem2 a1 (snd edge) (fst edge) 0 of
        Inl e \<Rightarrow> Inl e
      | Inr a2 \<Rightarrow> Inr (hop_net\<lparr>weights := w2, adj_matrix := a2\<rparr>)))))"

text \<open>Lines 105 to 111: the given number of pops, each followed by the removal.\<close>

fun prune_loop ::
  "nat \<Rightarrow> (nat \<times> nat) entry list \<Rightarrow> hopfield_graph \<Rightarrow> py_error + hopfield_graph" where
  "prune_loop 0 pq hop_net = Inr hop_net"
| "prune_loop (Suc n) pq hop_net =
     (case heappop pq of
        Inl e \<Rightarrow> Inl e
      | Inr (min_edge, pq') \<Rightarrow>
          (case clear_edge hop_net (item min_edge) of
             Inl e \<Rightarrow> Inl e
           | Inr hop_net' \<Rightarrow> prune_loop n pq' hop_net'))"

text \<open>
  Lines 93 to 113, for a model \<open>hop_net\<close> of \<open>N\<close> nodes. \<^verbatim>\<open>range\<close> of a negative number is
  empty, which \<open>nat\<close> of the difference gives.
\<close>

definition prune_edges ::
  "nat \<Rightarrow> hopfield_graph \<Rightarrow> int \<Rightarrow> bool \<Rightarrow> (nat \<Rightarrow> nat) \<Rightarrow> py_error + hopfield_graph" where
  "prune_edges N hop_net edges shuffle randbelow =
     (case collect_entries hop_net (lower_pairs N) [] of
        Inl e \<Rightarrow> Inl e
      | Inr pq \<Rightarrow>
          (let pq1 = (if shuffle then shuffle_list randbelow pq else pq);
               pq2 = heapify pq1
           in case prune_loop (nat (int (num_edges hop_net) - edges)) pq2 hop_net of
                Inl e \<Rightarrow> Inl e
              | Inr hop_net' \<Rightarrow> Inr (set_node_attributes hop_net')))"

text \<open>Lines 85 to 92: the model that is pruned, and its number of nodes.\<close>

definition prune_start ::
  "int list list \<Rightarrow> hopfield_graph option \<Rightarrow> py_error + (nat \<times> hopfield_graph)" where
  "prune_start patterns graph =
     (case graph of
        None \<Rightarrow>
          (case patterns of
             [] \<Rightarrow> Inl IndexError
           | p # ps \<Rightarrow>
               (let N = length p in
                case HopfieldGraph (fully_connected N) patterns of
                  Inl e \<Rightarrow> Inl e
                | Inr hop_net \<Rightarrow> Inr (N, train hop_net)))
      | Some g \<Rightarrow> Inr (length (nodes g), copy g))"

definition pruned_hopfield ::
  "int list list \<Rightarrow> int \<Rightarrow> hopfield_graph option \<Rightarrow> bool \<Rightarrow> (nat \<Rightarrow> nat)
     \<Rightarrow> py_error + hopfield_graph" where
  "pruned_hopfield patterns edges graph shuffle randbelow =
     (case prune_start patterns graph of
        Inl e \<Rightarrow> Inl e
      | Inr (N, hop_net) \<Rightarrow> prune_edges N hop_net edges shuffle randbelow)"

section \<open>The nearest-neighbor lattice\<close>

text \<open>The read \<^verbatim>\<open>xs[i]\<close> of a list, \<open>i\<close> not negative.\<close>

definition getitem :: "'a list \<Rightarrow> nat \<Rightarrow> py_error + 'a" where
  "getitem xs i = (if i < length xs then Inr (xs ! i) else Inl IndexError)"

text \<open>
  \<^verbatim>\<open>node_neighbors(i)\<close>, lines 203 to 213, on the model \<open>hopg\<close> (\<^verbatim>\<open>hop_graph\<close> in the source). Every node \<open>j\<close> of \<^verbatim>\<open>range(len(hop_graph.nodes))\<close>
  is entered with priority \<open>- |full_weights[i][j]|\<close>, the list is heapified, and \<open>k\<close> pops
  fill the set of neighbors. The set is kept as the list of its members in the order of
  their insertion; the loop over it in \<^verbatim>\<open>hopfield_lattice\<close> takes them in that order (the
  order in which Python iterates a set is not specified, and the graph that is built does
  not depend on it).
\<close>

fun neighbor_entries ::
  "hopfield_graph \<Rightarrow> nat \<Rightarrow> nat list \<Rightarrow> nat entry list \<Rightarrow> py_error + nat entry list" where
  "neighbor_entries hopg i [] pq = Inr pq"
| "neighbor_entries hopg i (j # js) pq =
     (case getitem2 (full_weights hopg) i j of
        Inl e \<Rightarrow> Inl e
      | Inr ij_weight \<Rightarrow> neighbor_entries hopg i js (pq @ [Entry j (- \<bar>ij_weight\<bar>)]))"

definition set_add :: "'a list \<Rightarrow> 'a \<Rightarrow> 'a list" where
  "set_add s x = (if x \<in> set s then s else s @ [x])"

fun pop_neighbors :: "nat \<Rightarrow> nat entry list \<Rightarrow> nat list \<Rightarrow> py_error + nat list" where
  "pop_neighbors 0 pq neighbors = Inr neighbors"
| "pop_neighbors (Suc k) pq neighbors =
     (case heappop pq of
        Inl e \<Rightarrow> Inl e
      | Inr (neighbor, pq') \<Rightarrow> pop_neighbors k pq' (set_add neighbors (item neighbor)))"

definition node_neighbors :: "hopfield_graph \<Rightarrow> int \<Rightarrow> nat \<Rightarrow> py_error + nat list" where
  "node_neighbors hopg k i =
     (case neighbor_entries hopg i [0..<length (nodes hopg)] [] of
        Inl e \<Rightarrow> Inl e
      | Inr pq \<Rightarrow> pop_neighbors (nat k) (heapify pq) [])"

text \<open>\<^verbatim>\<open>nearest_neighbors(hop_graph)\<close>, lines 215 to 218.\<close>

fun neighbors_loop ::
  "hopfield_graph \<Rightarrow> int \<Rightarrow> nat list \<Rightarrow> nat list list \<Rightarrow> py_error + nat list list" where
  "neighbors_loop hopg k [] res = Inr res"
| "neighbors_loop hopg k (i # is) res =
     (case node_neighbors hopg k i of
        Inl e \<Rightarrow> Inl e
      | Inr nb \<Rightarrow> neighbors_loop hopg k is (res @ [nb]))"

definition nearest_neighbors :: "hopfield_graph \<Rightarrow> int \<Rightarrow> py_error + nat list list" where
  "nearest_neighbors hopg k = neighbors_loop hopg k [0..<length (nodes hopg)] []"

text \<open>\<^verbatim>\<open>make_edge(i, j)\<close>, lines 220 to 224.\<close>

definition make_edge :: "hopfield_graph \<Rightarrow> nat \<Rightarrow> nat \<Rightarrow> py_error + hopfield_graph" where
  "make_edge hopg i j =
     (case setitem2 (adj_matrix hopg) i j 1 of
        Inl e \<Rightarrow> Inl e
      | Inr a1 \<Rightarrow>
          (case setitem2 a1 j i 1 of
             Inl e \<Rightarrow> Inl e
           | Inr a2 \<Rightarrow> train_edge (hopg\<lparr>adj_matrix := a2\<rparr>) i j))"

text \<open>Lines 231 to 237: the loop over the neighbors of one node, and the loop over the nodes.\<close>

fun lattice_inner ::
  "bool \<Rightarrow> nat list list \<Rightarrow> nat \<Rightarrow> nat list \<Rightarrow> hopfield_graph \<Rightarrow> py_error + hopfield_graph" where
  "lattice_inner intersection neighbors i [] hopg = Inr hopg"
| "lattice_inner intersection neighbors i (j # js) hopg =
     (if intersection then
        (case getitem neighbors j of
           Inl e \<Rightarrow> Inl e
         | Inr nj \<Rightarrow>
             if i \<notin> set nj then lattice_inner intersection neighbors i js hopg
             else (case make_edge hopg i j of
                     Inl e \<Rightarrow> Inl e
                   | Inr hopg' \<Rightarrow> lattice_inner intersection neighbors i js hopg'))
      else (case make_edge hopg i j of
              Inl e \<Rightarrow> Inl e
            | Inr hopg' \<Rightarrow> lattice_inner intersection neighbors i js hopg'))"

fun lattice_outer ::
  "bool \<Rightarrow> nat list list \<Rightarrow> nat list \<Rightarrow> hopfield_graph \<Rightarrow> py_error + hopfield_graph" where
  "lattice_outer intersection neighbors [] hopg = Inr hopg"
| "lattice_outer intersection neighbors (i # is) hopg =
     (case getitem neighbors i of
        Inl e \<Rightarrow> Inl e
      | Inr ni \<Rightarrow>
          (case lattice_inner intersection neighbors i ni hopg of
             Inl e \<Rightarrow> Inl e
           | Inr hopg' \<Rightarrow> lattice_outer intersection neighbors is hopg'))"

definition hopfield_lattice :: "int list list \<Rightarrow> int \<Rightarrow> bool \<Rightarrow> py_error + hopfield_graph" where
  "hopfield_lattice states k intersection =
     (case states of
        [] \<Rightarrow> Inl IndexError
      | s0 # ss \<Rightarrow>
          (case HopfieldGraph (empty_graph (length s0)) states of
             Inl e \<Rightarrow> Inl e
           | Inr h \<Rightarrow>
               (let hopg = train h in
                case nearest_neighbors hopg k of
                  Inl e \<Rightarrow> Inl e
                | Inr neighbors \<Rightarrow>
                    (case lattice_outer intersection neighbors [0..<length s0] hopg of
                       Inl e \<Rightarrow> Inl e
                     | Inr hopg' \<Rightarrow> Inr (set_node_attributes hopg')))))"

section \<open>The block model\<close>

subsection \<open>Dictionaries and bit strings\<close>

text \<open>
  A Python dict is an association list: the keys in insertion order, each once.
  \<open>dict_get d k\<close> is the read \<^verbatim>\<open>d[k]\<close>, which raises KeyError on a missing key;
  \<open>AList.update k v d\<close> is the write \<^verbatim>\<open>d[k] = v\<close>, which keeps the place of a key that is
  there already.

  \<^verbatim>\<open>edge_probs\<close> is a dict of dicts, and its values are objects: two keys may hold the same
  inner dict, and a write to \<^verbatim>\<open>edge_probs[str1][str2]\<close> changes that object for every key
  that holds it. So the table is the outer dict from keys to object identities, which no
  statement of the builder changes, together with a store that gives every identity its
  inner dict. The store is passed through the functions below and handed back to the
  caller, also when a later statement raises.
\<close>

type_synonym prob_row = "(string \<times> real) list"

type_synonym prob_table = "(string \<times> nat) list"

type_synonym row_store = "nat \<Rightarrow> prob_row"

definition dict_get :: "('k \<times> 'v) list \<Rightarrow> 'k \<Rightarrow> py_error + 'v" where
  "dict_get d k = (case map_of d k of None \<Rightarrow> Inl KeyError | Some v \<Rightarrow> Inr v)"

definition dict_keys :: "('k \<times> 'v) list \<Rightarrow> 'k list" where
  "dict_keys d = map fst d"

text \<open>The read \<^verbatim>\<open>edge_probs[str1][str2]\<close> and the write \<^verbatim>\<open>edge_probs[str1][str2] = v\<close>.\<close>

definition lookup2 :: "prob_table \<Rightarrow> row_store \<Rightarrow> string \<Rightarrow> string \<Rightarrow> py_error + real" where
  "lookup2 edge_probs rows str1 str2 =
     (case dict_get edge_probs str1 of Inl e \<Rightarrow> Inl e | Inr r \<Rightarrow> dict_get (rows r) str2)"

definition store2 ::
  "prob_table \<Rightarrow> row_store \<Rightarrow> string \<Rightarrow> string \<Rightarrow> real \<Rightarrow> py_error + row_store" where
  "store2 edge_probs rows str1 str2 v =
     (case dict_get edge_probs str1 of
        Inl e \<Rightarrow> Inl e
      | Inr r \<Rightarrow> Inr (rows(r := AList.update str2 v (rows r))))"

text \<open>
  Modelled from the spec: \<^verbatim>\<open>bit_list_to_string\<close> and \<^verbatim>\<open>flip_bits\<close> (module
  \<^verbatim>\<open>bit_string_helpers\<close>) are not among the source files. A node's signature is the string
  of its bits over the patterns, and flipping exchanges the two orientations (section 4.3
  of the specification).
\<close>

definition bit_list_to_string :: "int list \<Rightarrow> string" where
  "bit_list_to_string bits = map (\<lambda>b. if b = 0 then CHR ''0'' else CHR ''1'') bits"

definition flip_bits :: "string \<Rightarrow> string" where
  "flip_bits s = map (\<lambda>c. if c = CHR ''0'' then CHR ''1'' else CHR ''0'') s"

subsection \<open>adjust\_probs\<close>

text \<open>
  Line 145, for one pair of keys; \<open>groups\<close> is the dict returned by \<^verbatim>\<open>node_groups\<close>
  (module \<^verbatim>\<open>graph_utilities\<close>, not among the source files; it is a parameter of the
  builder).
\<close>

definition group_key :: "(string \<times> nat list) list \<Rightarrow> string \<Rightarrow> string" where
  "group_key groups s = (if s \<in> set (dict_keys groups) then s else flip_bits s)"

definition pair_term ::
  "(string \<times> nat list) list \<Rightarrow> prob_table \<Rightarrow> row_store \<Rightarrow> string \<Rightarrow> string
     \<Rightarrow> py_error + real" where
  "pair_term groups edge_probs rows str1 str2 =
     (case dict_get groups (group_key groups str1) of
        Inl e \<Rightarrow> Inl e
      | Inr g1 \<Rightarrow>
     (case dict_get groups (group_key groups str2) of
        Inl e \<Rightarrow> Inl e
      | Inr g2 \<Rightarrow>
     (case lookup2 edge_probs rows str1 str2 of
        Inl e \<Rightarrow> Inl e
      | Inr p \<Rightarrow> Inr (real (length g1) * real (length g2) * p))))"

text \<open>
  Lines 133 to 145: the two loops over the keys, with the running sum and the set of
  pairs already considered.
\<close>

fun expected_inner ::
  "(string \<times> nat list) list \<Rightarrow> prob_table \<Rightarrow> row_store \<Rightarrow> string \<Rightarrow> string list
     \<Rightarrow> real \<times> (string \<times> string) set \<Rightarrow> py_error + (real \<times> (string \<times> string) set)" where
  "expected_inner groups edge_probs rows str1 [] acc = Inr acc"
| "expected_inner groups edge_probs rows str1 (str2 # rest) acc =
     (case acc of (expected_edges, considered_pairs) \<Rightarrow>
        if (str1, str2) \<in> considered_pairs
        then expected_inner groups edge_probs rows str1 rest acc
        else (case pair_term groups edge_probs rows str1 str2 of
                Inl e \<Rightarrow> Inl e
              | Inr t \<Rightarrow>
                  expected_inner groups edge_probs rows str1 rest
                    (expected_edges + t, insert (str1, str2) considered_pairs)))"

fun expected_outer ::
  "(string \<times> nat list) list \<Rightarrow> prob_table \<Rightarrow> row_store \<Rightarrow> string list \<Rightarrow> string list
     \<Rightarrow> real \<times> (string \<times> string) set \<Rightarrow> py_error + (real \<times> (string \<times> string) set)" where
  "expected_outer groups edge_probs rows [] keys acc = Inr acc"
| "expected_outer groups edge_probs rows (str1 # rest) keys acc =
     (case expected_inner groups edge_probs rows str1 keys acc of
        Inl e \<Rightarrow> Inl e
      | Inr acc' \<Rightarrow> expected_outer groups edge_probs rows rest keys acc')"

definition expected_edges_of ::
  "(string \<times> nat list) list \<Rightarrow> prob_table \<Rightarrow> row_store \<Rightarrow> py_error + real" where
  "expected_edges_of groups edge_probs rows =
     (case expected_outer groups edge_probs rows (dict_keys edge_probs) (dict_keys edge_probs)
             (0, {}) of
        Inl e \<Rightarrow> Inl e
      | Inr (expected_edges, considered_pairs) \<Rightarrow> Inr expected_edges)"

text \<open>
  Lines 149 to 151: for every pair of keys the entry is read, multiplied by the ratio and
  written back into the inner dict that \<^verbatim>\<open>edge_probs[str1]\<close> holds. The result is the store
  and the exception raised, if any.
\<close>

fun rescale_inner ::
  "real \<Rightarrow> prob_table \<Rightarrow> string \<Rightarrow> string list \<Rightarrow> row_store \<Rightarrow> row_store \<times> py_error option" where
  "rescale_inner adjustment_ratio edge_probs str1 [] rows = (rows, None)"
| "rescale_inner adjustment_ratio edge_probs str1 (str2 # rest) rows =
     (case lookup2 edge_probs rows str1 str2 of
        Inl e \<Rightarrow> (rows, Some e)
      | Inr p \<Rightarrow>
          (case store2 edge_probs rows str1 str2 (adjustment_ratio * p) of
             Inl e \<Rightarrow> (rows, Some e)
           | Inr rows' \<Rightarrow> rescale_inner adjustment_ratio edge_probs str1 rest rows'))"

fun rescale_outer ::
  "real \<Rightarrow> prob_table \<Rightarrow> string list \<Rightarrow> string list \<Rightarrow> row_store
     \<Rightarrow> row_store \<times> py_error option" where
  "rescale_outer adjustment_ratio edge_probs [] keys rows = (rows, None)"
| "rescale_outer adjustment_ratio edge_probs (str1 # rest) keys rows =
     (case rescale_inner adjustment_ratio edge_probs str1 keys rows of
        (rows', Some e) \<Rightarrow> (rows', Some e)
      | (rows', None) \<Rightarrow> rescale_outer adjustment_ratio edge_probs rest keys rows')"

text \<open>
  \<^verbatim>\<open>adjust_probs()\<close>. The division at line 147 raises ZeroDivisionError when the sum is 0.
\<close>

definition adjust_probs ::
  "(string \<times> nat list) list \<Rightarrow> int \<Rightarrow> prob_table \<Rightarrow> row_store \<Rightarrow> row_store \<times> py_error option" where
  "adjust_probs groups num_edges_wanted edge_probs rows =
     (case expected_edges_of groups edge_probs rows of
        Inl e \<Rightarrow> (rows, Some e)
      | Inr expected_edges \<Rightarrow>
          if expected_edges = 0 then (rows, Some ZeroDivisionError)
          else (let adjustment_ratio = 2 * real_of_int num_edges_wanted / expected_edges
                in rescale_outer adjustment_ratio edge_probs (dict_keys edge_probs)
                     (dict_keys edge_probs) rows))"

subsection \<open>hopfield\_sbm\<close>

text \<open>
  Lines 166 to 167 (and 170 to 171): the pattern of a node, flipped when it is not a key of
  the table. The cache of line 161 only saves recomputation: a node's pattern does not
  change during the loop.
\<close>

definition node_pattern :: "prob_table \<Rightarrow> int list list \<Rightarrow> nat \<Rightarrow> py_error + string" where
  "node_pattern edge_probs states i =
     (if list_ex (\<lambda>state. length state \<le> i) states then Inl IndexError
      else (let i_pattern = bit_list_to_string (map (\<lambda>state. state ! i) states)
            in Inr (if i_pattern \<in> set (dict_keys edge_probs) then i_pattern
                    else flip_bits i_pattern)))"

text \<open>
  Lines 162 to 179 over the pairs \<open>j < i < N\<close>; \<open>uniform i j\<close> is the number that
  \<^verbatim>\<open>np.random.uniform()\<close> returns at the pair \<open>(i, j)\<close>.
\<close>

fun sbm_edges ::
  "(nat \<Rightarrow> nat \<Rightarrow> real) \<Rightarrow> prob_table \<Rightarrow> row_store \<Rightarrow> int list list \<Rightarrow> (nat \<times> nat) list
     \<Rightarrow> hopfield_graph \<Rightarrow> py_error + hopfield_graph" where
  "sbm_edges uniform edge_probs rows states [] hopg = Inr hopg"
| "sbm_edges uniform edge_probs rows states ((i, j) # ps) hopg =
     (case node_pattern edge_probs states i of
        Inl e \<Rightarrow> Inl e
      | Inr i_pattern \<Rightarrow>
     (case node_pattern edge_probs states j of
        Inl e \<Rightarrow> Inl e
      | Inr j_pattern \<Rightarrow>
     (case lookup2 edge_probs rows i_pattern j_pattern of
        Inl e \<Rightarrow> Inl e
      | Inr prob \<Rightarrow>
          if uniform i j < prob then
            (case setitem2 (adj_matrix hopg) i j 1 of
               Inl e \<Rightarrow> Inl e
             | Inr a1 \<Rightarrow>
                 (case setitem2 a1 j i 1 of
                    Inl e \<Rightarrow> Inl e
                  | Inr a2 \<Rightarrow>
                      sbm_edges uniform edge_probs rows states ps (hopg\<lparr>adj_matrix := a2\<rparr>)))
          else sbm_edges uniform edge_probs rows states ps hopg)))"

text \<open>
  \<^verbatim>\<open>hopfield_sbm(edge_probs, states, num_edges)\<close>, called with the table \<open>edge_probs\<close> in
  the store \<open>rows\<close>. The result is the store as the call leaves it, and the trained model
  or the exception.
\<close>

definition hopfield_sbm ::
  "(hopfield_graph \<Rightarrow> (string \<times> nat list) list) \<Rightarrow> (nat \<Rightarrow> nat \<Rightarrow> real) \<Rightarrow> prob_table
     \<Rightarrow> row_store \<Rightarrow> int list list \<Rightarrow> int \<Rightarrow> row_store \<times> (py_error + hopfield_graph)" where
  "hopfield_sbm node_groups uniform edge_probs rows states num_edges_wanted =
     (case states of
        [] \<Rightarrow> (rows, Inl IndexError)
      | s0 # ss \<Rightarrow>
          (let N = length s0 in
           case HopfieldGraph (empty_graph N) states of
             Inl e \<Rightarrow> (rows, Inl e)
           | Inr hopg \<Rightarrow>
               (case adjust_probs (node_groups hopg) num_edges_wanted edge_probs rows of
                  (rows', Some e) \<Rightarrow> (rows', Inl e)
                | (rows', None) \<Rightarrow>
                    (case sbm_edges uniform edge_probs rows' states (lower_pairs N) hopg of
                       Inl e \<Rightarrow> (rows', Inl e)
                     | Inr hopg' \<Rightarrow> (rows', Inr (train hopg'))))))"

text \<open>
  The probability that \<^verbatim>\<open>np.random.uniform() < prob\<close>, and with it the expected number of
  edges that the loop of lines 162 to 179 makes with a given table: the sum of these
  probabilities over the node pairs.
\<close>

definition edge_probability :: "real \<Rightarrow> real" where
  "edge_probability prob = min 1 (max 0 prob)"

fun expected_num_edges ::
  "prob_table \<Rightarrow> row_store \<Rightarrow> int list list \<Rightarrow> (nat \<times> nat) list \<Rightarrow> py_error + real" where
  "expected_num_edges edge_probs rows states [] = Inr 0"
| "expected_num_edges edge_probs rows states ((i, j) # ps) =
     (case node_pattern edge_probs states i of
        Inl e \<Rightarrow> Inl e
      | Inr i_pattern \<Rightarrow>
     (case node_pattern edge_probs states j of
        Inl e \<Rightarrow> Inl e
      | Inr j_pattern \<Rightarrow>
     (case lookup2 edge_probs rows i_pattern j_pattern of
        Inl e \<Rightarrow> Inl e
      | Inr prob \<Rightarrow>
          (case expected_num_edges edge_probs rows states ps of
             Inl e \<Rightarrow> Inl e
           | Inr rest \<Rightarrow> Inr (edge_probability prob + rest)))))"

section \<open>Facts about the priority queue\<close>

text \<open>
  The sift loops keep the length and the entries of the list; \<open>heapify\<close> establishes the
  heap order and \<open>heappop\<close> keeps it, so that every pop returns an entry of least priority.
\<close>

declare siftdown_loop.simps [simp del] siftup_loop.simps [simp del]

lemma length_siftdown_loop [simp]: "length (siftdown_loop heap x s p) = length heap"
  by (induction heap x s p rule: siftdown_loop.induct)
     (subst siftdown_loop.simps, simp add: Let_def)

lemma mset_siftdown_loop:
  "p < length heap \<Longrightarrow> mset (siftdown_loop heap x s p) = mset (heap[p := x])"
proof (induction heap x s p rule: siftdown_loop.induct)
  case (1 heap x s p)
  show ?case
  proof (cases "s < p \<and> entry_lt x (heap ! ((p - 1) div 2))")
    case False
    then show ?thesis by (subst siftdown_loop.simps) (auto simp: Let_def)
  next
    case True
    define q where "q = (p - 1) div 2"
    have q: "q < p" "q < length heap" using True "1.prems" by (auto simp: q_def)
    have "siftdown_loop heap x s p = siftdown_loop (heap[p := heap ! q]) x s q"
      using True by (subst siftdown_loop.simps) (simp add: Let_def q_def)
    also have "mset \<dots> = mset (heap[p := heap ! q, q := x])"
      using "1.IH" [of q "heap ! q"] True q by (simp add: q_def)
    also have "\<dots> = mset (heap[p := x])"
      using mset_swap [of q "heap[p := x]" p] q "1.prems" by simp
    finally show ?thesis .
  qed
qed

definition smaller_child :: "'a entry list \<Rightarrow> nat \<Rightarrow> nat \<Rightarrow> nat" where
  "smaller_child heap e p =
     (if 2 * p + 2 < e \<and> \<not> entry_lt (heap ! (2 * p + 1)) (heap ! (2 * p + 2))
      then 2 * p + 2 else 2 * p + 1)"

lemma siftup_loop_leaf: "\<not> 2 * p + 1 < e \<Longrightarrow> siftup_loop heap e p = (heap, p)"
  by (subst siftup_loop.simps) (simp add: Let_def)

lemma siftup_loop_step:
  "2 * p + 1 < e \<Longrightarrow>
     siftup_loop heap e p
       = siftup_loop (heap[p := heap ! smaller_child heap e p]) e (smaller_child heap e p)"
  by (subst siftup_loop.simps) (simp add: Let_def smaller_child_def)

lemma smaller_child_cases:
  "smaller_child heap e p = 2 * p + 1 \<or> smaller_child heap e p = 2 * p + 2"
  by (simp add: smaller_child_def)

lemma smaller_child_bound: "2 * p + 1 < e \<Longrightarrow> smaller_child heap e p < e"
  by (simp add: smaller_child_def)

lemma smaller_child_gt: "p < smaller_child heap e p"
  by (simp add: smaller_child_def)

lemma siftup_loop_induct_rule [consumes 1, case_names leaf step]:
  assumes "p < e"
    and leaf: "\<And>heap p. p < e \<Longrightarrow> \<not> 2 * p + 1 < e \<Longrightarrow> P heap p"
    and step: "\<And>heap p. p < e \<Longrightarrow> 2 * p + 1 < e \<Longrightarrow>
                 P (heap[p := heap ! smaller_child heap e p]) (smaller_child heap e p) \<Longrightarrow> P heap p"
  shows "P heap p"
  using assms(1)
proof (induction "e - p" arbitrary: heap p rule: less_induct)
  case less
  show ?case
  proof (cases "2 * p + 1 < e")
    case False
    with less.prems show ?thesis by (rule leaf)
  next
    case True
    have c: "smaller_child heap e p < e" "p < smaller_child heap e p"
      using True by (simp_all add: smaller_child_bound smaller_child_gt)
    then have "e - smaller_child heap e p < e - p" by linarith
    then have "P (heap[p := heap ! smaller_child heap e p]) (smaller_child heap e p)"
      using c by (intro less.hyps)
    with less.prems True show ?thesis by (rule step)
  qed
qed

lemma siftup_loop_props:
  assumes "p < length heap"
  shows "case siftup_loop heap (length heap) p of (heap', p') \<Rightarrow>
           length heap' = length heap \<and> p' < length heap \<and> p \<le> p' \<and> length heap \<le> 2 * p' + 1
           \<and> mset (heap'[p' := x]) = mset (heap[p := x])"
proof -
  define e where "e = length heap"
  have "p < e" using assms by (simp add: e_def)
  then have "length heap = e \<longrightarrow> (case siftup_loop heap e p of (heap', p') \<Rightarrow>
           length heap' = e \<and> p' < e \<and> p \<le> p' \<and> e \<le> 2 * p' + 1
           \<and> mset (heap'[p' := x]) = mset (heap[p := x]))"
  proof (induction heap p rule: siftup_loop_induct_rule)
    case (leaf heap p)
    then show ?case by (simp add: siftup_loop_leaf)
  next
    case (step heap p)
    define c where "c = smaller_child heap e p"
    have c: "c < e" "p < c" using step.hyps by (simp_all add: c_def smaller_child_bound smaller_child_gt)
    show ?case
    proof
      assume len: "length heap = e"
      obtain h' p' where r: "siftup_loop (heap[p := heap ! c]) e c = (h', p')"
        by (cases "siftup_loop (heap[p := heap ! c]) e c")
      from step.IH len r have IH: "length h' = e" "p' < e" "c \<le> p'" "e \<le> 2 * p' + 1"
        "mset (h'[p' := x]) = mset (heap[p := heap ! c, c := x])"
        by (simp_all add: c_def)
      have "mset (heap[p := heap ! c, c := x]) = mset (heap[p := x])"
        using mset_swap [of c "heap[p := x]" p] c step.hyps len by simp
      with IH c r show "case siftup_loop heap e p of (heap', p') \<Rightarrow>
           length heap' = e \<and> p' < e \<and> p \<le> p' \<and> e \<le> 2 * p' + 1
           \<and> mset (heap'[p' := x]) = mset (heap[p := x])"
        using step.hyps by (simp add: siftup_loop_step c_def)
    qed
  qed
  then show ?thesis by (simp add: e_def)
qed

lemma length_siftup [simp]: "p < length heap \<Longrightarrow> length (siftup heap p) = length heap"
  using siftup_loop_props [of p heap]
  by (auto simp: siftup_def siftdown_def Let_def split: prod.splits)

lemma mset_siftup: "p < length heap \<Longrightarrow> mset (siftup heap p) = mset heap"
proof -
  assume p: "p < length heap"
  obtain h' p' where l: "siftup_loop heap (length heap) p = (h', p')"
    by (cases "siftup_loop heap (length heap) p")
  from siftup_loop_props [OF p, of "heap ! p"] l
  have *: "length h' = length heap" "p' < length heap"
    "mset (h'[p' := heap ! p]) = mset heap" by simp_all
  have "siftup heap p = siftdown_loop (h'[p' := heap ! p]) (heap ! p) p p'"
    using l * by (simp add: siftup_def siftdown_def Let_def)
  then show ?thesis
    using * by (simp add: mset_siftdown_loop)
qed

lemma heapify_fold_props:
  "\<forall>i\<in>set is. i < length x \<Longrightarrow>
     length (fold (\<lambda>i heap. siftup heap i) is x) = length x
     \<and> mset (fold (\<lambda>i heap. siftup heap i) is x) = mset x"
  by (induction "is" arbitrary: x) (auto simp: mset_siftup)

lemma heapify_props: "length (heapify x) = length x \<and> mset (heapify x) = mset x"
proof -
  have "\<forall>i\<in>set (rev [0..<length x div 2]). i < length x" by auto
  from heapify_fold_props [OF this] show ?thesis by (simp add: heapify_def)
qed

lemma length_heapify [simp]: "length (heapify x) = length x"
  by (simp add: heapify_props)

lemma mset_heapify [simp]: "mset (heapify x) = mset x"
  by (simp add: heapify_props)

lemma heappop_empty: "heappop [] = Inl IndexError"
  by (simp add: heappop_def)

lemma heappop_props:
  assumes "heap \<noteq> []"
  shows "\<exists>x heap'. heappop heap = Inr (x, heap') \<and> mset heap = add_mset x (mset heap')
           \<and> length heap' = length heap - 1"
proof -
  define h1 where "h1 = butlast heap"
  have h: "heap = h1 @ [last heap]" using assms by (simp add: h1_def)
  have len: "length h1 = length heap - 1" by (simp add: h1_def)
  have ms: "mset heap = add_mset (last heap) (mset h1)"
    by (subst h) simp
  show ?thesis
  proof (cases "h1 = []")
    case True
    then have "heappop heap = Inr (last heap, h1)"
      using assms by (simp add: heappop_def Let_def h1_def)
    with ms len show ?thesis by blast
  next
    case False
    then have pos: "0 < length h1" by simp
    have pop: "heappop heap = Inr (h1 ! 0, siftup (h1[0 := last heap]) 0)"
      using assms False by (simp add: heappop_def Let_def h1_def)
    have m1: "mset (siftup (h1[0 := last heap]) 0) = mset (h1[0 := last heap])"
      using pos by (simp add: mset_siftup)
    obtain y ys where ys: "h1 = y # ys" using False by (cases h1) auto
    have "add_mset (h1 ! 0) (mset (h1[0 := last heap])) = add_mset (last heap) (mset h1)"
      by (simp add: ys)
    with m1 ms have "mset heap = add_mset (h1 ! 0) (mset (siftup (h1[0 := last heap]) 0))"
      by simp
    moreover have "length (siftup (h1[0 := last heap]) 0) = length heap - 1"
      using pos len by simp
    ultimately show ?thesis using pop by blast
  qed
qed

text \<open>
  Heap order from position \<open>s\<close> on: every entry whose parent sits at \<open>s\<close> or later is not
  smaller than its parent. \<open>below s p\<close> says that \<open>p\<close> lies in the subtree rooted at \<open>s\<close>.
  \<open>down_inv\<close> is the invariant of the loop of \<open>siftup\<close> (heap order everywhere but around
  the hole \<open>p\<close>), \<open>up_inv\<close> that of the loop of \<open>siftdown\<close>.
\<close>

definition parent_pos :: "nat \<Rightarrow> nat" where
  "parent_pos i = (i - 1) div 2"

definition heap_from :: "nat \<Rightarrow> 'a entry list \<Rightarrow> bool" where
  "heap_from s h =
     (\<forall>i<length h. 0 < i \<and> s \<le> parent_pos i \<longrightarrow> priority (h ! parent_pos i) \<le> priority (h ! i))"

inductive below :: "nat \<Rightarrow> nat \<Rightarrow> bool" for s where
  below_self: "below s s"
| below_left: "below s p \<Longrightarrow> below s (2 * p + 1)"
| below_right: "below s p \<Longrightarrow> below s (2 * p + 2)"

definition up_inv :: "nat \<Rightarrow> 'a entry list \<Rightarrow> nat \<Rightarrow> bool" where
  "up_inv s v p =
     ((\<forall>i<length v. 0 < i \<and> s \<le> parent_pos i \<and> i \<noteq> p
          \<longrightarrow> priority (v ! parent_pos i) \<le> priority (v ! i))
      \<and> (p \<noteq> s \<longrightarrow> (\<forall>c<length v. 0 < c \<and> parent_pos c = p
          \<longrightarrow> priority (v ! parent_pos p) \<le> priority (v ! c))))"

definition down_inv :: "nat \<Rightarrow> 'a entry list \<Rightarrow> nat \<Rightarrow> bool" where
  "down_inv s h p =
     ((\<forall>i<length h. 0 < i \<and> s \<le> parent_pos i \<and> i \<noteq> p \<and> parent_pos i \<noteq> p
          \<longrightarrow> priority (h ! parent_pos i) \<le> priority (h ! i))
      \<and> (p \<noteq> s \<longrightarrow> (\<forall>c<length h. 0 < c \<and> parent_pos c = p
          \<longrightarrow> priority (h ! parent_pos p) \<le> priority (h ! c))))"

lemma parent_pos_less: "0 < i \<Longrightarrow> parent_pos i < i"
  unfolding parent_pos_def by linarith

lemma parent_pos_child: "0 < i \<Longrightarrow> parent_pos i = p \<longleftrightarrow> i = 2 * p + 1 \<or> i = 2 * p + 2"
  unfolding parent_pos_def by linarith

lemma below_ge: "below s p \<Longrightarrow> s \<le> p"
  by (induction rule: below.induct) simp_all

lemma below_parent:
  assumes "below s p" "p \<noteq> s"
  shows "0 < p \<and> below s (parent_pos p) \<and> s \<le> parent_pos p"
  using assms
proof (cases rule: below.cases)
  case below_self
  with assms show ?thesis by simp
next
  case (below_left q)
  then have "parent_pos p = q" by (simp add: parent_pos_child)
  with below_left show ?thesis by (simp add: below_ge)
next
  case (below_right q)
  then have "parent_pos p = q" by (simp add: parent_pos_child)
  with below_right show ?thesis by (simp add: below_ge)
qed

lemma up_inv_step:
  assumes inv: "up_inv s (h[p := x]) p" and bel: "below s p" and sp: "s < p" and p: "p < length h"
    and lt: "priority x < priority (h ! parent_pos p)"
  shows "up_inv s (h[p := h ! parent_pos p, parent_pos p := x]) (parent_pos p)"
proof -
  define q where "q = parent_pos p"
  define v where "v = h[p := x]"
  define v' where "v' = h[p := h ! q, q := x]"
  define y where "y = h ! q"
  have p0: "0 < p" using sp by simp
  have qp: "q < p" using p0 by (simp add: q_def parent_pos_less)
  have ql: "q < length h" using qp p by simp
  have sq: "s \<le> q" "below s q" using below_parent [OF bel] sp by (simp_all add: q_def)
  have xy: "priority x < priority y" using lt by (simp add: y_def q_def)
  have vp: "v ! p = x" and vq: "v ! q = y" using p qp by (simp_all add: v_def y_def)
  have v'p: "v' ! p = y" and v'q: "v' ! q = x" using p qp ql by (simp_all add: v'_def y_def)
  have same: "\<And>i. i \<noteq> p \<Longrightarrow> i \<noteq> q \<Longrightarrow> v' ! i = v ! i" by (simp add: v'_def v_def)
  have lv: "length v = length h" "length v' = length h" by (simp_all add: v_def v'_def)
  have a: "\<And>i. i < length h \<Longrightarrow> 0 < i \<Longrightarrow> s \<le> parent_pos i \<Longrightarrow> i \<noteq> p
              \<Longrightarrow> priority (v ! parent_pos i) \<le> priority (v ! i)"
    using inv by (simp add: up_inv_def v_def)
  have b: "\<And>c. c < length h \<Longrightarrow> 0 < c \<Longrightarrow> parent_pos c = p
              \<Longrightarrow> priority (v ! parent_pos p) \<le> priority (v ! c)"
    using inv sp by (simp add: up_inv_def v_def)
  have a': "priority (v' ! parent_pos i) \<le> priority (v' ! i)"
    if i: "i < length h" "0 < i" "s \<le> parent_pos i" "i \<noteq> q" for i
  proof -
    consider "i = p" | "i \<noteq> p" "parent_pos i = q" | "parent_pos i = p" | "i \<noteq> p" "parent_pos i \<noteq> q" "parent_pos i \<noteq> p"
      by blast
    then show ?thesis
    proof cases
      case 1
      then show ?thesis using v'p v'q xy by (simp add: q_def)
    next
      case 2
      have "priority (v ! q) \<le> priority (v ! i)" using a [OF i(1,2,3) 2(1)] 2(2) by simp
      moreover have "v' ! i = v ! i" using same 2(1) i(4) by simp
      ultimately show ?thesis using 2(2) v'q vq xy by simp
    next
      case 3
      then have ip: "p < i" using parent_pos_less [OF i(2)] by simp
      then have "v' ! i = v ! i" using same qp by simp
      moreover have "priority (v ! q) \<le> priority (v ! i)" using b [OF i(1,2) 3] by (simp add: q_def)
      ultimately show ?thesis using 3 v'p vq by simp
    next
      case 4
      have "v' ! i = v ! i" using same 4(1) i(4) by simp
      moreover have "v' ! parent_pos i = v ! parent_pos i" using same 4(2,3) by simp
      ultimately show ?thesis using a [OF i(1,2,3) 4(1)] by simp
    qed
  qed
  have b': "priority (v' ! parent_pos q) \<le> priority (v' ! c)"
    if qs: "q \<noteq> s" and c: "c < length h" "0 < c" "parent_pos c = q" for c
  proof -
    have q0: "0 < q" and sq': "s \<le> parent_pos q" using below_parent [OF sq(2) qs] by simp_all
    have pq: "parent_pos q < q" using q0 by (rule parent_pos_less)
    have "v' ! parent_pos q = v ! parent_pos q" using same pq qp by simp
    moreover have "priority (v ! parent_pos q) \<le> priority (v ! q)"
      using a [OF ql q0 sq'] qp by simp
    ultimately have top: "priority (v' ! parent_pos q) \<le> priority y" using vq by simp
    show ?thesis
    proof (cases "c = p")
      case True
      then show ?thesis using top v'p by simp
    next
      case False
      have cq: "c \<noteq> q" using parent_pos_less [OF c(2)] c(3) by simp
      have "priority (v ! q) \<le> priority (v ! c)" using a [OF c(1,2) _ False] c(3) sq(1) by simp
      moreover have "v' ! c = v ! c" using same False cq by simp
      ultimately show ?thesis using top vq by simp
    qed
  qed
  show ?thesis
    unfolding up_inv_def q_def [symmetric] v'_def [symmetric]
    using a' b' lv by simp
qed

lemma siftdown_loop_heap:
  "below s p \<Longrightarrow> p < length h \<Longrightarrow> up_inv s (h[p := x]) p \<Longrightarrow> heap_from s (siftdown_loop h x s p)"
proof (induction h x s p rule: siftdown_loop.induct)
  case (1 h x s p)
  define q where "q = parent_pos p"
  show ?case
  proof (cases "s < p \<and> entry_lt x (h ! q)")
    case True
    then have lt: "priority x < priority (h ! parent_pos p)" by (simp add: entry_lt_def q_def)
    have p0: "0 < p" using True by simp
    have bq: "below s q" using below_parent [OF "1.prems"(1)] True by (simp add: q_def)
    have ql: "q < length h" using parent_pos_less [OF p0] "1.prems"(2) by (simp add: q_def)
    have inv': "up_inv s (h[p := h ! q, q := x]) q"
      using up_inv_step [OF "1.prems"(3) "1.prems"(1) _ "1.prems"(2) lt] True by (simp add: q_def)
    have "siftdown_loop h x s p = siftdown_loop (h[p := h ! q]) x s q"
      using True by (subst siftdown_loop.simps) (simp add: Let_def q_def parent_pos_def)
    moreover have "heap_from s (siftdown_loop (h[p := h ! q]) x s q)"
      using "1.IH" [of "(p - 1) div 2" "h ! q"] True bq ql inv'
      by (simp add: q_def parent_pos_def)
    ultimately show ?thesis by simp
  next
    case False
    then have res: "siftdown_loop h x s p = h[p := x]"
      by (subst siftdown_loop.simps) (auto simp: Let_def q_def parent_pos_def)
    have "priority ((h[p := x]) ! parent_pos i) \<le> priority ((h[p := x]) ! i)"
      if i: "i < length h" "0 < i" "s \<le> parent_pos i" for i
    proof (cases "i = p")
      case ne: False
      then show ?thesis using "1.prems"(3) i by (simp add: up_inv_def)
    next
      case ip: True
      have "s < p" using i parent_pos_less [OF i(2)] ip by simp
      with False have "\<not> priority x < priority (h ! q)" by (simp add: entry_lt_def)
      moreover have "q \<noteq> p" using parent_pos_less [OF i(2)] ip by (simp add: q_def)
      ultimately show ?thesis using ip i by (simp add: q_def)
    qed
    then show ?thesis by (simp add: res heap_from_def)
  qed
qed


lemma down_inv_step:
  assumes inv: "down_inv s h p" and bel: "below s p" and c1: "2 * p + 1 < length h"
  shows "down_inv s (h[p := h ! smaller_child h (length h) p]) (smaller_child h (length h) p)"
proof -
  define c where "c = smaller_child h (length h) p"
  define h1 where "h1 = h[p := h ! c]"
  have cc: "c = 2 * p + 1 \<or> c = 2 * p + 2" unfolding c_def by (rule smaller_child_cases)
  have cl: "c < length h" using c1 by (simp add: c_def smaller_child_bound)
  have pc: "p < c" by (simp add: c_def smaller_child_gt)
  have c0: "0 < c" using pc by simp
  have cpar: "parent_pos c = p" using cc c0 by (simp add: parent_pos_child)
  have pl: "p < length h" using pc cl by simp
  have sp: "s \<le> p" using bel by (rule below_ge)
  have h1p: "h1 ! p = h ! c" using pl by (simp add: h1_def)
  have same: "\<And>i. i \<noteq> p \<Longrightarrow> h1 ! i = h ! i" by (simp add: h1_def)
  have J: "\<And>i. i < length h \<Longrightarrow> 0 < i \<Longrightarrow> s \<le> parent_pos i \<Longrightarrow> i \<noteq> p \<Longrightarrow> parent_pos i \<noteq> p
              \<Longrightarrow> priority (h ! parent_pos i) \<le> priority (h ! i)"
    using inv by (simp add: down_inv_def)
  have K: "\<And>d. p \<noteq> s \<Longrightarrow> d < length h \<Longrightarrow> 0 < d \<Longrightarrow> parent_pos d = p
              \<Longrightarrow> priority (h ! parent_pos p) \<le> priority (h ! d)"
    using inv by (simp add: down_inv_def)
  have sib: "priority (h ! c) \<le> priority (h ! i)"
    if i: "i < length h" "0 < i" "parent_pos i = p" "i \<noteq> c" for i
  proof -
    have ii: "i = 2 * p + 1 \<or> i = 2 * p + 2" using i(2,3) by (simp add: parent_pos_child)
    show ?thesis
    proof (cases "c = 2 * p + 2")
      case True
      then have "i = 2 * p + 1" using ii i(4) by simp
      moreover have "\<not> entry_lt (h ! (2 * p + 1)) (h ! (2 * p + 2))"
        using True unfolding c_def smaller_child_def by (simp split: if_splits)
      ultimately show ?thesis using True by (simp add: entry_lt_def)
    next
      case False
      then have c': "c = 2 * p + 1" using cc by simp
      then have i': "i = 2 * p + 2" using ii i(4) by simp
      have "entry_lt (h ! (2 * p + 1)) (h ! (2 * p + 2))"
        using c' i' i(1) unfolding c_def smaller_child_def by (simp split: if_splits)
      then show ?thesis using c' i' by (simp add: entry_lt_def)
    qed
  qed
  have J': "priority (h1 ! parent_pos i) \<le> priority (h1 ! i)"
    if i: "i < length h" "0 < i" "s \<le> parent_pos i" "i \<noteq> c" "parent_pos i \<noteq> c" for i
  proof -
    consider "i = p" | "parent_pos i = p" | "i \<noteq> p" "parent_pos i \<noteq> p" by blast
    then show ?thesis
    proof cases
      case 1
      have pp: "parent_pos p < p" using i(2) 1 by (simp add: parent_pos_less)
      then have ps: "p \<noteq> s" using i(3) 1 by simp
      have "priority (h ! parent_pos p) \<le> priority (h ! c)" using K [OF ps cl c0 cpar] .
      moreover have "h1 ! parent_pos p = h ! parent_pos p" using same pp by simp
      ultimately show ?thesis using 1 h1p by simp
    next
      case 2
      have "i \<noteq> p" using parent_pos_less [OF i(2)] 2 by simp
      then have "h1 ! i = h ! i" using same by simp
      then show ?thesis using sib [OF i(1,2) 2 i(4)] 2 h1p by simp
    next
      case 3
      then show ?thesis using J [OF i(1,2,3)] same by simp
    qed
  qed
  have K': "priority (h1 ! parent_pos c) \<le> priority (h1 ! d)"
    if d: "d < length h" "0 < d" "parent_pos d = c" for d
  proof -
    have cd: "c < d" using parent_pos_less [OF d(2)] d(3) by simp
    then have "h1 ! d = h ! d" using same pc by simp
    moreover have "priority (h ! c) \<le> priority (h ! d)"
      using J [OF d(1,2)] d(3) sp pc cd by simp
    ultimately show ?thesis using cpar h1p by simp
  qed
  have "length h1 = length h" by (simp add: h1_def)
  then show ?thesis
    unfolding down_inv_def c_def [symmetric] h1_def [symmetric]
    using J' K' by simp
qed

lemma siftup_loop_inv:
  assumes "p < length h" "below s p" "down_inv s h p"
  shows "case siftup_loop h (length h) p of (h', p') \<Rightarrow> below s p' \<and> down_inv s h' p'"
proof -
  define e where "e = length h"
  have "p < e" using assms(1) by (simp add: e_def)
  then have "length h = e \<longrightarrow> below s p \<longrightarrow> down_inv s h p \<longrightarrow>
      (case siftup_loop h e p of (h', p') \<Rightarrow> below s p' \<and> down_inv s h' p')"
  proof (induction h p rule: siftup_loop_induct_rule)
    case (leaf h p)
    then show ?case by (simp add: siftup_loop_leaf)
  next
    case (step h p)
    show ?case
    proof (intro impI)
      assume len: "length h = e" and bel: "below s p" and inv: "down_inv s h p"
      define c where "c = smaller_child h e p"
      have "c = 2 * p + 1 \<or> c = 2 * p + 2" unfolding c_def by (rule smaller_child_cases)
      then have bc: "below s c"
        using below_left [OF bel] below_right [OF bel] by auto
      have "down_inv s (h[p := h ! c]) c"
        using down_inv_step [OF inv bel] step.hyps len by (simp add: c_def)
      with step.IH bc len
      have "case siftup_loop (h[p := h ! c]) e c of (h', p') \<Rightarrow> below s p' \<and> down_inv s h' p'"
        by (simp add: c_def)
      then show "case siftup_loop h e p of (h', p') \<Rightarrow> below s p' \<and> down_inv s h' p'"
        using step.hyps by (simp add: siftup_loop_step c_def)
    qed
  qed
  with assms show ?thesis by (simp add: e_def)
qed

lemma siftup_heap:
  assumes p: "p < length h" and hp: "heap_from (Suc p) h"
  shows "heap_from p (siftup h p)"
proof -
  obtain h' p' where l: "siftup_loop h (length h) p = (h', p')"
    by (cases "siftup_loop h (length h) p")
  have d0: "down_inv p h p"
    using hp unfolding down_inv_def heap_from_def
    by (auto simp: Suc_le_eq order_le_less)
  from siftup_loop_inv [OF p below_self d0] l
  have bel: "below p p'" and inv: "down_inv p h' p'" by simp_all
  from siftup_loop_props [OF p, of "h ! p"] l
  have len: "length h' = length h" and p': "p' < length h" and leaf: "length h \<le> 2 * p' + 1"
    by simp_all
  define x where "x = h ! p"
  define v where "v = h'[p' := x]"
  have nochild: "parent_pos i \<noteq> p'" if "i < length h" "0 < i" for i
    using that leaf by (auto simp: parent_pos_child)
  have "up_inv p v p'"
    unfolding up_inv_def
  proof (intro conjI allI impI)
    fix i assume "i < length v" and i: "0 < i \<and> p \<le> parent_pos i \<and> i \<noteq> p'"
    then have il: "i < length h" by (simp add: v_def len)
    have np: "parent_pos i \<noteq> p'" using nochild il i by simp
    have "priority (h' ! parent_pos i) \<le> priority (h' ! i)"
      using inv il i np len by (simp add: down_inv_def)
    then show "priority (v ! parent_pos i) \<le> priority (v ! i)"
      using i np by (simp add: v_def)
  next
    fix c assume "p' \<noteq> p" "c < length v" "0 < c \<and> parent_pos c = p'"
    then show "priority (v ! parent_pos p') \<le> priority (v ! c)"
      using nochild [of c] by (simp add: v_def len)
  qed
  then have "up_inv p (v[p' := x]) p'" by (simp add: v_def)
  then have "heap_from p (siftdown_loop v x p p')"
    using siftdown_loop_heap [OF bel, of v x] p' len by (simp add: v_def)
  moreover have "siftup h p = siftdown_loop v x p p'"
    using l p' len by (simp add: siftup_def siftdown_def Let_def v_def x_def)
  ultimately show ?thesis by simp
qed

lemma heapify_fold_heap:
  "k \<le> length h \<Longrightarrow> heap_from k h \<Longrightarrow> heap_from 0 (fold (\<lambda>i heap. siftup heap i) (rev [0..<k]) h)"
proof (induction k arbitrary: h)
  case 0
  then show ?case by simp
next
  case (Suc k)
  have "heap_from k (siftup h k)" using Suc.prems by (intro siftup_heap) simp_all
  moreover have "k \<le> length (siftup h k)" using Suc.prems by simp
  ultimately show ?case using Suc.IH [of "siftup h k"] by simp
qed

lemma heapify_heap: "heap_from 0 (heapify x)"
proof -
  have "heap_from (length x div 2) x"
    unfolding heap_from_def parent_pos_def by (intro allI impI) linarith
  then show ?thesis
    unfolding heapify_def by (intro heapify_fold_heap) simp_all
qed

lemma heap_root_least:
  assumes "heap_from 0 h" "i < length h"
  shows "priority (h ! 0) \<le> priority (h ! i)"
  using assms(2)
proof (induction i rule: less_induct)
  case (less i)
  show ?case
  proof (cases "i = 0")
    case True
    then show ?thesis by simp
  next
    case False
    then have i0: "0 < i" by simp
    have pl: "parent_pos i < i" using i0 by (rule parent_pos_less)
    have "priority (h ! parent_pos i) \<le> priority (h ! i)"
      using assms(1) less.prems i0 by (simp add: heap_from_def)
    moreover have "priority (h ! 0) \<le> priority (h ! parent_pos i)"
      using less.IH [OF pl] pl less.prems by simp
    ultimately show ?thesis by simp
  qed
qed

lemma heappop_heap:
  assumes hp: "heap_from 0 heap" and pop: "heappop heap = Inr (x, heap')"
  shows "heap_from 0 heap' \<and> (\<forall>y\<in>set heap. priority x \<le> priority y)"
proof -
  have ne: "heap \<noteq> []" using pop by (auto simp: heappop_def)
  define h1 where "h1 = butlast heap"
  have least: "\<forall>y\<in>set heap. priority (heap ! 0) \<le> priority y"
    using heap_root_least [OF hp] by (auto simp: in_set_conv_nth)
  show ?thesis
  proof (cases "h1 = []")
    case True
    then have "heap = [last heap]" using ne
      by (metis append_Nil append_butlast_last_id h1_def)
    then have "heap ! 0 = last heap" by (metis nth_Cons_0)
    moreover have "x = last heap" "heap' = []"
      using pop ne True by (simp_all add: heappop_def Let_def h1_def)
    ultimately show ?thesis using least by (simp add: heap_from_def)
  next
    case False
    then have pos: "0 < length h1" by simp
    have x: "x = h1 ! 0" and h': "heap' = siftup (h1[0 := last heap]) 0"
      using pop ne False by (simp_all add: heappop_def Let_def h1_def)
    have "h1 ! 0 = heap ! 0" using pos by (simp add: h1_def nth_butlast)
    with x least have l: "\<forall>y\<in>set heap. priority x \<le> priority y" by simp
    have "heap_from (Suc 0) (h1[0 := last heap])"
      unfolding heap_from_def
    proof (intro allI impI)
      fix i assume il: "i < length (h1[0 := last heap])"
        and i: "0 < i \<and> Suc 0 \<le> parent_pos i"
      then have "i < length heap" by (simp add: h1_def)
      then have "priority (heap ! parent_pos i) \<le> priority (heap ! i)"
        using hp i by (simp add: heap_from_def)
      moreover have "parent_pos i < i" using i by (simp add: parent_pos_less)
      ultimately show "priority (h1[0 := last heap] ! parent_pos i) \<le> priority (h1[0 := last heap] ! i)"
        using il i by (simp add: h1_def nth_butlast)
    qed
    then have "heap_from 0 heap'"
      unfolding h' using pos by (intro siftup_heap) simp_all
    with l show ?thesis by simp
  qed
qed

section \<open>Facts about the pruned model\<close>

text \<open>
  A model of \<open>n\<close> nodes is well formed when its adjacency and weight matrices are
  \<open>n \<times> n\<close> and the adjacency entries are 0 or 1 and symmetric. \<open>edge_list\<close> lists the
  existing edges below the diagonal, which is what the queue is filled with.
\<close>

definition square :: "nat \<Rightarrow> 'a list list \<Rightarrow> bool" where
  "square n m = (length m = n \<and> list_all (\<lambda>row. length row = n) m)"

definition well_formed :: "nat \<Rightarrow> hopfield_graph \<Rightarrow> bool" where
  "well_formed n g =
     (square n (adj_matrix g) \<and> square n (weights g) \<and>
      list_all (\<lambda>(i, j). adj_matrix g ! i ! j \<in> {0, 1} \<and> adj_matrix g ! i ! j = adj_matrix g ! j ! i)
        (lower_pairs n))"

lemma square_row: "square n m \<Longrightarrow> i < n \<Longrightarrow> length (m ! i) = n"
  by (simp add: square_def list_all_length)

lemma square_length: "square n m \<Longrightarrow> length m = n"
  by (simp add: square_def)

lemma getitem2_square: "square n m \<Longrightarrow> i < n \<Longrightarrow> j < n \<Longrightarrow> getitem2 m i j = Inr (m ! i ! j)"
  by (simp add: getitem2_def square_row square_length)

lemma setitem2_square:
  "square n m \<Longrightarrow> i < n \<Longrightarrow> j < n \<Longrightarrow> setitem2 m i j v = Inr (m[i := (m ! i)[j := v]])"
  by (simp add: setitem2_def square_row square_length)

lemma square_update: "square n m \<Longrightarrow> i < n \<Longrightarrow> square n (m[i := (m ! i)[j := v]])"
  by (auto simp: square_def list_all_length nth_list_update)

lemma nth_update2:
  "square n m \<Longrightarrow> a < n \<Longrightarrow> b < n \<Longrightarrow>
     m[i := (m ! i)[j := v]] ! a ! b = (if a = i \<and> b = j then v else m ! a ! b)"
  by (cases "a = i") (auto simp: square_def list_all_length nth_list_update)

lemma length_matrix_of [simp]: "length (matrix_of n f) = n"
  by (simp add: matrix_of_def)

lemma square_matrix_of [simp]: "square n (matrix_of n f)"
  by (simp add: square_def matrix_of_def list_all_iff)

lemma nth_matrix_of [simp]: "i < n \<Longrightarrow> j < n \<Longrightarrow> matrix_of n f ! i ! j = f i j"
  by (simp add: matrix_of_def)

lemma lower_pairs_Suc: "lower_pairs (Suc n) = lower_pairs n @ map (\<lambda>j. (n, j)) [0..<n]"
  by (simp add: lower_pairs_def)

lemma set_lower_pairs: "set (lower_pairs n) = {(i, j). j < i \<and> i < n}"
  by (induction n) (auto simp: lower_pairs_Suc lower_pairs_def less_Suc_eq)

lemma distinct_lower_pairs: "distinct (lower_pairs n)"
  by (induction n) (auto simp: lower_pairs_Suc lower_pairs_def distinct_map inj_on_def set_lower_pairs)

lemma upper_pairs_swap: "upper_pairs n = map prod.swap (lower_pairs n)"
  by (simp add: upper_pairs_def lower_pairs_def map_concat comp_def)

lemma well_formedD:
  assumes "well_formed n g" "j < i" "i < n"
  shows "adj_matrix g ! i ! j \<in> {0, 1}" "adj_matrix g ! j ! i = adj_matrix g ! i ! j"
proof -
  have "(i, j) \<in> set (lower_pairs n)" using assms(2,3) by (simp add: set_lower_pairs)
  with assms(1) have "adj_matrix g ! i ! j \<in> {0, 1} \<and> adj_matrix g ! i ! j = adj_matrix g ! j ! i"
    unfolding well_formed_def list_all_iff by fast
  then show "adj_matrix g ! i ! j \<in> {0, 1}" "adj_matrix g ! j ! i = adj_matrix g ! i ! j"
    by auto
qed

definition edge_list :: "nat \<Rightarrow> hopfield_graph \<Rightarrow> (nat \<times> nat) list" where
  "edge_list n g = filter (\<lambda>(i, j). adj_matrix g ! i ! j \<noteq> 0) (lower_pairs n)"

lemma set_edge_list:
  "set (edge_list n g) = {(i, j). j < i \<and> i < n \<and> adj_matrix g ! i ! j \<noteq> 0}"
  by (auto simp: edge_list_def set_lower_pairs)

lemma distinct_edge_list: "distinct (edge_list n g)"
  by (simp add: edge_list_def distinct_lower_pairs)

lemma num_edges_edge_list:
  assumes "well_formed n g"
  shows "num_edges g = length (edge_list n g)"
proof -
  have sq: "square n (adj_matrix g)" using assms by (simp add: well_formed_def)
  have "(case prod.swap p of (i, j) \<Rightarrow> getitem2 (adj_matrix g) i j = Inr 1)
          = (case p of (i, j) \<Rightarrow> adj_matrix g ! i ! j \<noteq> 0)"
    if "p \<in> set (lower_pairs n)" for p
  proof -
    obtain i j where p: "p = (i, j)" by (cases p)
    with that have ij: "j < i" "i < n" by (simp_all add: set_lower_pairs)
    from well_formedD [OF assms ij] getitem2_square [OF sq, of j i] ij
    show ?thesis by (auto simp: p)
  qed
  then have "filter ((\<lambda>(i, j). getitem2 (adj_matrix g) i j = Inr 1) \<circ> prod.swap) (lower_pairs n)
      = edge_list n g"
    unfolding edge_list_def by (intro filter_cong) (simp_all add: comp_def)
  then show ?thesis
    using sq by (simp add: num_edges_def square_length upper_pairs_swap filter_map)
qed

lemma collect_entries_square:
  assumes "square n (adj_matrix g)" "square n (weights g)" "set ps \<subseteq> set (lower_pairs n)"
  shows "collect_entries g ps pq =
           Inr (pq @ map (\<lambda>(i, j). Entry (i, j) \<bar>weights g ! i ! j\<bar>)
                        (filter (\<lambda>(i, j). adj_matrix g ! i ! j \<noteq> 0) ps))"
  using assms(3)
proof (induction ps arbitrary: pq)
  case Nil
  then show ?case by simp
next
  case (Cons p ps)
  obtain i j where p: "p = (i, j)" by (cases p)
  with Cons.prems have ij: "i < n" "j < n" by (auto simp: set_lower_pairs)
  show ?case
    using Cons.IH Cons.prems ij
    by (simp add: p getitem2_square [OF assms(1)] getitem2_square [OF assms(2)])
qed


definition clear_both :: "'a list list \<Rightarrow> nat \<Rightarrow> nat \<Rightarrow> 'a \<Rightarrow> 'a list list" where
  "clear_both m i j v = (m[i := (m ! i)[j := v]])[j := (m[i := (m ! i)[j := v]] ! j)[i := v]]"

lemma square_clear_both: "square n m \<Longrightarrow> i < n \<Longrightarrow> j < n \<Longrightarrow> square n (clear_both m i j v)"
  unfolding clear_both_def by (intro square_update) simp_all

lemma if_merge: "(if P then v else if Q then v else x) = (if Q \<or> P then v else x)"
  by simp

lemma nth_clear_both:
  assumes "square n m" "i < n" "j < n" "a < n" "b < n"
  shows "clear_both m i j v ! a ! b = (if (a = i \<and> b = j) \<or> (a = j \<and> b = i) then v else m ! a ! b)"
proof -
  let ?m1 = "m[i := (m ! i)[j := v]]"
  have s1: "square n ?m1" using assms(1,2) by (rule square_update)
  have 1: "?m1[j := (?m1 ! j)[i := v]] ! a ! b = (if a = j \<and> b = i then v else ?m1 ! a ! b)"
    using s1 assms(4,5) by (rule nth_update2)
  have 2: "?m1 ! a ! b = (if a = i \<and> b = j then v else m ! a ! b)"
    using assms(1,4,5) by (rule nth_update2)
  have "clear_both m i j v ! a ! b = (if a = j \<and> b = i then v else if a = i \<and> b = j then v else m ! a ! b)"
    unfolding clear_both_def by (simp only: 1 2)
  then show ?thesis by (simp only: if_merge)
qed

lemma setitem2_twice:
  assumes "square n m" "i < n" "j < n"
  shows "(case setitem2 m i j v of Inl e \<Rightarrow> Inl e | Inr m1 \<Rightarrow>
            (case setitem2 m1 j i v of Inl e \<Rightarrow> Inl e | Inr m2 \<Rightarrow> f m2)) = f (clear_both m i j v)"
proof -
  let ?m1 = "m[i := (m ! i)[j := v]]"
  have s1: "square n ?m1" using assms(1,2) by (rule square_update)
  have 1: "setitem2 m i j v = Inr ?m1"
    using assms by (rule setitem2_square)
  have 2: "setitem2 ?m1 j i v = Inr (?m1[j := (?m1 ! j)[i := v]])"
    using s1 assms(3,2) by (rule setitem2_square)
  show ?thesis
    unfolding clear_both_def by (simp only: 1 2 sum.case)
qed

lemma clear_edge_eq:
  assumes "well_formed n g" "j < i" "i < n"
  shows "clear_edge g (i, j)
           = Inr (g\<lparr>weights := clear_both (weights g) i j 0, adj_matrix := clear_both (adj_matrix g) i j 0\<rparr>)"
proof -
  have jn: "j < n" using assms by simp
  have sqa: "square n (adj_matrix g)" and sqw: "square n (weights g)"
    using assms(1) by (simp_all add: well_formed_def)
  show ?thesis
    unfolding clear_edge_def fst_conv snd_conv
    by (simp only: setitem2_twice [OF sqw assms(3) jn] setitem2_twice [OF sqa assms(3) jn])
qed

lemma clear_edge_well_formed:
  assumes wf: "well_formed n g" and ij: "j < i" "i < n"
  shows "\<exists>g'. clear_edge g (i, j) = Inr g' \<and> well_formed n g'
           \<and> (\<forall>a<n. \<forall>b<n. adj_matrix g' ! a ! b
                  = (if (a = i \<and> b = j) \<or> (a = j \<and> b = i) then 0 else adj_matrix g ! a ! b))
           \<and> (\<forall>a<n. \<forall>b<n. weights g' ! a ! b
                  = (if (a = i \<and> b = j) \<or> (a = j \<and> b = i) then 0 else weights g ! a ! b))"
proof -
  have jn: "j < n" using ij by simp
  have sqa: "square n (adj_matrix g)" and sqw: "square n (weights g)"
    using wf by (simp_all add: well_formed_def)
  define g' where "g' = g\<lparr>weights := clear_both (weights g) i j 0,
                            adj_matrix := clear_both (adj_matrix g) i j 0\<rparr>"
  have ce: "clear_edge g (i, j) = Inr g'"
    unfolding g'_def using wf ij by (rule clear_edge_eq)
  have adj: "adj_matrix g' ! a ! b
      = (if (a = i \<and> b = j) \<or> (a = j \<and> b = i) then 0 else adj_matrix g ! a ! b)"
    if "a < n" "b < n" for a b
    using nth_clear_both [OF sqa ij(2) jn that] by (simp add: g'_def)
  have wts: "weights g' ! a ! b
      = (if (a = i \<and> b = j) \<or> (a = j \<and> b = i) then 0 else weights g ! a ! b)"
    if "a < n" "b < n" for a b
    using nth_clear_both [OF sqw ij(2) jn that] by (simp add: g'_def)
  have sym: "adj_matrix g' ! a ! b \<in> {0, 1} \<and> adj_matrix g' ! a ! b = adj_matrix g' ! b ! a"
    if ab: "b < a" "a < n" for a b
  proof -
    have bn: "b < n" using ab by simp
    have 1: "adj_matrix g ! a ! b \<in> {0, 1}" and 2: "adj_matrix g ! b ! a = adj_matrix g ! a ! b"
      using well_formedD [OF wf ab] by simp_all
    have ne: "a \<noteq> b" using ab by simp
    show ?thesis
    proof (cases "(a = i \<and> b = j) \<or> (a = j \<and> b = i)")
      case True
      then have "(b = i \<and> a = j) \<or> (b = j \<and> a = i)" by blast
      with True show ?thesis
        by (simp only: adj [OF ab(2) bn] adj [OF bn ab(2)] if_True; simp)
    next
      case False
      then have "\<not> ((b = i \<and> a = j) \<or> (b = j \<and> a = i))" by blast
      with False show ?thesis
        using 1 2 by (simp only: adj [OF ab(2) bn] adj [OF bn ab(2)] if_False; simp)
    qed
  qed
  have "square n (adj_matrix g')" "square n (weights g')"
    using square_clear_both [OF sqa ij(2) jn] square_clear_both [OF sqw ij(2) jn]
    by (simp_all add: g'_def)
  then have "well_formed n g'"
    unfolding well_formed_def list_all_iff using sym by (auto simp: set_lower_pairs)
  with ce adj wts show ?thesis by blast
qed

text \<open>
  The invariant of the removal loop: the queue is a heap that holds exactly the existing
  edges below the diagonal, each once, with the magnitude of its weight as priority.
  \<open>kept_unchanged n g g'\<close>: an edge of \<open>g'\<close> is an edge of \<open>g\<close> with the same weight.
  \<open>removed_least n g g'\<close>: no edge removed on the way from \<open>g\<close> to \<open>g'\<close> has a larger
  magnitude than an edge that is left.
\<close>

definition queue_inv :: "nat \<Rightarrow> (nat \<times> nat) entry list \<Rightarrow> hopfield_graph \<Rightarrow> bool" where
  "queue_inv n pq g =
     (well_formed n g \<and> heap_from 0 pq \<and> distinct (map item pq)
      \<and> set (map item pq) = set (edge_list n g)
      \<and> (\<forall>e\<in>set pq. priority e = \<bar>weights g ! fst (item e) ! snd (item e)\<bar>))"

definition kept_unchanged :: "nat \<Rightarrow> hopfield_graph \<Rightarrow> hopfield_graph \<Rightarrow> bool" where
  "kept_unchanged n g g' =
     (\<forall>a b. b < a \<and> a < n \<and> adj_matrix g' ! a ! b \<noteq> 0 \<longrightarrow>
        adj_matrix g' ! a ! b = adj_matrix g ! a ! b \<and> weights g' ! a ! b = weights g ! a ! b)"

definition removed_least :: "nat \<Rightarrow> hopfield_graph \<Rightarrow> hopfield_graph \<Rightarrow> bool" where
  "removed_least n g g' =
     (\<forall>a b c d. b < a \<and> a < n \<and> d < c \<and> c < n \<and> adj_matrix g ! a ! b \<noteq> 0
         \<and> adj_matrix g' ! a ! b = 0 \<and> adj_matrix g' ! c ! d \<noteq> 0 \<longrightarrow>
        \<bar>weights g ! a ! b\<bar> \<le> \<bar>weights g ! c ! d\<bar>)"

lemma queue_inv_num_edges:
  assumes "queue_inv n pq g"
  shows "num_edges g = length pq"
proof -
  have "num_edges g = length (edge_list n g)"
    using assms by (simp add: queue_inv_def num_edges_edge_list)
  also have "\<dots> = card (set (edge_list n g))"
    by (simp add: distinct_card distinct_edge_list)
  also have "\<dots> = card (set (map item pq))"
    using assms by (simp add: queue_inv_def)
  also have "\<dots> = length pq"
    using assms distinct_card [of "map item pq"] by (simp add: queue_inv_def)
  finally show ?thesis .
qed


lemma clear_edge_lower:
  assumes wf: "well_formed n g" and ij: "j < i" "i < n"
  shows "\<exists>g'. clear_edge g (i, j) = Inr g' \<and> well_formed n g'
           \<and> (\<forall>a b. b < a \<and> a < n \<longrightarrow>
                 adj_matrix g' ! a ! b = (if (a, b) = (i, j) then 0 else adj_matrix g ! a ! b)
               \<and> weights g' ! a ! b = (if (a, b) = (i, j) then 0 else weights g ! a ! b))"
proof -
  from clear_edge_well_formed [OF wf ij] obtain g1 where ce: "clear_edge g (i, j) = Inr g1"
    and wf1: "well_formed n g1"
    and adj1: "\<And>a b. a < n \<Longrightarrow> b < n \<Longrightarrow> adj_matrix g1 ! a ! b
                  = (if (a = i \<and> b = j) \<or> (a = j \<and> b = i) then 0 else adj_matrix g ! a ! b)"
    and wts1: "\<And>a b. a < n \<Longrightarrow> b < n \<Longrightarrow> weights g1 ! a ! b
                  = (if (a = i \<and> b = j) \<or> (a = j \<and> b = i) then 0 else weights g ! a ! b)"
    by blast
  have "adj_matrix g1 ! a ! b = (if (a, b) = (i, j) then 0 else adj_matrix g ! a ! b)
               \<and> weights g1 ! a ! b = (if (a, b) = (i, j) then 0 else weights g ! a ! b)"
    if ab: "b < a \<and> a < n" for a b
  proof -
    have bn: "b < n" and an: "a < n" using ab by simp_all
    have "\<not> (a = j \<and> b = i)" using ab ij(1) by linarith
    then have c: "((a = i \<and> b = j) \<or> (a = j \<and> b = i)) = ((a, b) = (i, j))" by blast
    show ?thesis
      using adj1 [OF an bn] wts1 [OF an bn] by (simp only: c; simp)
  qed
  with ce wf1 show ?thesis by blast
qed

lemma mset_add_member: "mset xs = add_mset x (mset ys) \<Longrightarrow> x \<in> set xs \<and> set ys \<subseteq> set xs"
proof -
  assume a: "mset xs = add_mset x (mset ys)"
  then have "mset xs = mset (x # ys)" by simp
  then have "set xs = set (x # ys)" by (rule mset_eq_setD)
  then show ?thesis by auto
qed

lemma mset_add_distinct:
  assumes "mset xs = add_mset x (mset ys)" "distinct xs"
  shows "distinct ys \<and> x \<notin> set ys \<and> set xs = insert x (set ys)"
proof -
  have m: "mset xs = mset (x # ys)" using assms(1) by simp
  then have "distinct (x # ys)" using assms(2) by (metis mset_eq_imp_distinct_iff)
  moreover have "set xs = set (x # ys)" using m by (rule mset_eq_setD)
  ultimately show ?thesis by simp
qed

lemma queue_inv_step:
  assumes inv: "queue_inv n pq g" and ne: "pq \<noteq> []"
  shows "\<exists>x pq' g1. heappop pq = Inr (x, pq') \<and> clear_edge g (item x) = Inr g1
           \<and> queue_inv n pq' g1 \<and> length pq' = length pq - 1
           \<and> snd (item x) < fst (item x) \<and> fst (item x) < n
           \<and> adj_matrix g ! fst (item x) ! snd (item x) \<noteq> 0
           \<and> (\<forall>a b. b < a \<and> a < n \<longrightarrow>
                 adj_matrix g1 ! a ! b = (if (a, b) = item x then 0 else adj_matrix g ! a ! b)
               \<and> weights g1 ! a ! b = (if (a, b) = item x then 0 else weights g ! a ! b))
           \<and> (\<forall>e\<in>set pq. priority x \<le> priority e)
           \<and> priority x = \<bar>weights g ! fst (item x) ! snd (item x)\<bar>"
proof -
  from heappop_props [OF ne] obtain x pq' where pop: "heappop pq = Inr (x, pq')"
    and ms: "mset pq = add_mset x (mset pq')" and len: "length pq' = length pq - 1"
    by blast
  have hp: "heap_from 0 pq" and wf: "well_formed n g" and dist: "distinct (map item pq)"
    and items: "set (map item pq) = set (edge_list n g)"
    and prio: "\<And>e. e \<in> set pq \<Longrightarrow> priority e = \<bar>weights g ! fst (item e) ! snd (item e)\<bar>"
    using inv by (simp_all add: queue_inv_def)
  from heappop_heap [OF hp pop] have hp': "heap_from 0 pq'"
    and least: "\<forall>e\<in>set pq. priority x \<le> priority e"
    by simp_all
  obtain i j where x: "item x = (i, j)" by (cases "item x")
  have xin: "x \<in> set pq" and sub: "set pq' \<subseteq> set pq"
    using mset_add_member [OF ms] by simp_all
  have "item x \<in> set (map item pq)" using xin by simp
  then have "(i, j) \<in> set (edge_list n g)" using items x by simp
  then have ij: "j < i" "i < n" and e: "adj_matrix g ! i ! j \<noteq> 0"
    by (simp_all add: set_edge_list)
  from clear_edge_lower [OF wf ij] obtain g1 where ce: "clear_edge g (i, j) = Inr g1"
    and wf1: "well_formed n g1"
    and low: "\<And>a b. b < a \<and> a < n \<Longrightarrow>
                 adj_matrix g1 ! a ! b = (if (a, b) = (i, j) then 0 else adj_matrix g ! a ! b)
               \<and> weights g1 ! a ! b = (if (a, b) = (i, j) then 0 else weights g ! a ! b)"
    by blast
  have "mset (map item pq) = image_mset item (mset pq)" by simp
  also have "\<dots> = add_mset (i, j) (mset (map item pq'))" unfolding ms by (simp add: x)
  finally have msi: "mset (map item pq) = add_mset (i, j) (mset (map item pq'))" .
  from mset_add_distinct [OF msi dist]
  have d': "distinct (map item pq')" and notin: "(i, j) \<notin> set (map item pq')"
    and sets: "set (map item pq) = insert (i, j) (set (map item pq'))"
    by simp_all
  have el: "set (edge_list n g1) = set (edge_list n g) - {(i, j)}"
  proof (rule set_eqI)
    fix p :: "nat \<times> nat"
    obtain a b where p: "p = (a, b)" by (cases p)
    show "p \<in> set (edge_list n g1) \<longleftrightarrow> p \<in> set (edge_list n g) - {(i, j)}"
    proof (cases "b < a \<and> a < n")
      case False
      then show ?thesis unfolding p set_edge_list by blast
    next
      case True
      from low [OF True] have l: "adj_matrix g1 ! a ! b = (if (a, b) = (i, j) then 0 else adj_matrix g ! a ! b)"
        by simp
      show ?thesis
      proof (cases "(a, b) = (i, j)")
        case eq: True
        have "adj_matrix g1 ! a ! b = 0" unfolding l using eq by simp
        then show ?thesis unfolding p set_edge_list using eq by simp
      next
        case neq: False
        have "adj_matrix g1 ! a ! b = adj_matrix g ! a ! b" using neq by (simp only: l if_not_P if_False)
        then show ?thesis unfolding p set_edge_list using neq True by simp
      qed
    qed
  qed
  have s': "set (map item pq') = set (edge_list n g1)"
    unfolding el items [symmetric] sets using notin by blast
  have pr': "priority e = \<bar>weights g1 ! fst (item e) ! snd (item e)\<bar>" if "e \<in> set pq'" for e
  proof -
    have ein: "e \<in> set pq" using that sub by blast
    have "item e \<in> set (map item pq')" using that by simp
    then have m: "item e \<in> set (edge_list n g1)" and ne': "item e \<noteq> (i, j)"
      using s' notin by auto
    obtain a b where ab: "item e = (a, b)" by (cases "item e")
    with m have "b < a \<and> a < n" by (simp add: set_edge_list)
    from low [OF this] ne' ab have "weights g1 ! a ! b = weights g ! a ! b" by auto
    then show ?thesis using prio [OF ein] by (simp add: ab)
  qed
  have q': "queue_inv n pq' g1"
    unfolding queue_inv_def using wf1 hp' d' s' pr' by blast
  have px: "priority x = \<bar>weights g ! fst (item x) ! snd (item x)\<bar>"
    using prio [OF xin] .
  have low': "\<forall>a b. b < a \<and> a < n \<longrightarrow>
                 adj_matrix g1 ! a ! b = (if (a, b) = item x then 0 else adj_matrix g ! a ! b)
               \<and> weights g1 ! a ! b = (if (a, b) = item x then 0 else weights g ! a ! b)"
    unfolding x using low by blast
  have ce': "clear_edge g (item x) = Inr g1" using ce by (simp add: x)
  have ij': "snd (item x) < fst (item x)" "fst (item x) < n"
    "adj_matrix g ! fst (item x) ! snd (item x) \<noteq> 0"
    using ij e by (simp_all add: x)
  show ?thesis
    using pop ce' q' len ij' low' least px by blast
qed

lemma clear_edge_frame:
  "clear_edge g e = Inr g' \<Longrightarrow>
     nodes g' = nodes g \<and> full_weights g' = full_weights g \<and> stored_states g' = stored_states g"
proof -
  assume a: "clear_edge g e = Inr g'"
  show ?thesis
  proof (cases "setitem2 (weights g) (fst e) (snd e) 0")
    case Inl
    with a show ?thesis by (simp add: clear_edge_def)
  next
    case (Inr w1)
    note w1 = this
    show ?thesis
    proof (cases "setitem2 w1 (snd e) (fst e) 0")
      case Inl
      with a w1 show ?thesis by (simp add: clear_edge_def)
    next
      case (Inr w2)
      note w2 = this
      show ?thesis
      proof (cases "setitem2 (adj_matrix g) (fst e) (snd e) 0")
        case Inl
        with a w1 w2 show ?thesis by (simp add: clear_edge_def)
      next
        case (Inr a1)
        note a1 = this
        show ?thesis
        proof (cases "setitem2 a1 (snd e) (fst e) 0")
          case Inl
          with a w1 w2 a1 show ?thesis by (simp add: clear_edge_def)
        next
          case (Inr a2)
          with a w1 w2 a1 have "g' = g\<lparr>weights := w2, adj_matrix := a2\<rparr>"
            by (simp add: clear_edge_def)
          then show ?thesis by simp
        qed
      qed
    qed
  qed
qed

lemma prune_loop_ok:
  assumes "queue_inv n pq g" "k \<le> length pq"
  shows "\<exists>g'. prune_loop k pq g = Inr g' \<and> well_formed n g' \<and> num_edges g' = length pq - k
           \<and> kept_unchanged n g g' \<and> removed_least n g g'
           \<and> nodes g' = nodes g \<and> full_weights g' = full_weights g
           \<and> stored_states g' = stored_states g"
  using assms
proof (induction k arbitrary: pq g)
  case 0
  have "kept_unchanged n g g" by (simp add: kept_unchanged_def)
  moreover have "removed_least n g g" by (simp add: removed_least_def)
  moreover have "well_formed n g" using "0.prems" by (simp add: queue_inv_def)
  ultimately show ?case using queue_inv_num_edges [OF "0.prems"(1)] by simp
next
  case (Suc k)
  then have ne: "pq \<noteq> []" by auto
  from queue_inv_step [OF Suc.prems(1) ne]
  obtain x pq' g1 where pop: "heappop pq = Inr (x, pq')"
    and ce: "clear_edge g (item x) = Inr g1"
    and inv1: "queue_inv n pq' g1" and len: "length pq' = length pq - 1"
    and xe: "adj_matrix g ! fst (item x) ! snd (item x) \<noteq> 0"
    and low: "\<And>a b. b < a \<and> a < n \<Longrightarrow>
                 adj_matrix g1 ! a ! b = (if (a, b) = item x then 0 else adj_matrix g ! a ! b)
               \<and> weights g1 ! a ! b = (if (a, b) = item x then 0 else weights g ! a ! b)"
    and least: "\<And>e. e \<in> set pq \<Longrightarrow> priority x \<le> priority e"
    and px: "priority x = \<bar>weights g ! fst (item x) ! snd (item x)\<bar>"
    by blast
  have k: "k \<le> length pq'" using Suc.prems(2) len by simp
  from Suc.IH [OF inv1 k] obtain g' where run: "prune_loop k pq' g1 = Inr g'"
    and wf': "well_formed n g'" and cnt: "num_edges g' = length pq' - k"
    and kept1: "kept_unchanged n g1 g'" and rem1: "removed_least n g1 g'"
    and frame: "nodes g' = nodes g1" "full_weights g' = full_weights g1"
      "stored_states g' = stored_states g1"
    by blast
  have kept_g1: "(a, b) \<noteq> item x \<and> adj_matrix g1 ! a ! b = adj_matrix g ! a ! b
        \<and> weights g1 ! a ! b = weights g ! a ! b"
    if ab: "b < a \<and> a < n" and nz: "adj_matrix g1 ! a ! b \<noteq> 0" for a b
  proof -
    have ne: "(a, b) \<noteq> item x" using low [OF ab] nz by auto
    with low [OF ab] show ?thesis by auto
  qed
  have kept: "kept_unchanged n g g'"
    unfolding kept_unchanged_def
  proof (intro allI impI)
    fix a b assume h: "b < a \<and> a < n \<and> adj_matrix g' ! a ! b \<noteq> 0"
    then have 1: "adj_matrix g' ! a ! b = adj_matrix g1 ! a ! b"
      "weights g' ! a ! b = weights g1 ! a ! b"
      using kept1 by (simp_all add: kept_unchanged_def)
    with h have "adj_matrix g1 ! a ! b \<noteq> 0" by simp
    from kept_g1 [OF _ this] h 1
    show "adj_matrix g' ! a ! b = adj_matrix g ! a ! b \<and> weights g' ! a ! b = weights g ! a ! b"
      by simp
  qed
  have items: "set (map item pq) = set (edge_list n g)"
    and prio: "\<And>e. e \<in> set pq \<Longrightarrow> priority e = \<bar>weights g ! fst (item e) ! snd (item e)\<bar>"
    using Suc.prems(1) by (simp_all add: queue_inv_def)
  have rem: "removed_least n g g'"
    unfolding removed_least_def
  proof (intro allI impI)
    fix a b c d
    assume h: "b < a \<and> a < n \<and> d < c \<and> c < n \<and> adj_matrix g ! a ! b \<noteq> 0
         \<and> adj_matrix g' ! a ! b = 0 \<and> adj_matrix g' ! c ! d \<noteq> 0"
    then have cd: "d < c \<and> c < n" and ab: "b < a \<and> a < n" by simp_all
    have cd1: "adj_matrix g1 ! c ! d \<noteq> 0" using kept1 h by (auto simp: kept_unchanged_def)
    from kept_g1 [OF cd cd1] have cdx: "(c, d) \<noteq> item x"
      and cda: "adj_matrix g ! c ! d \<noteq> 0" and cdw: "weights g1 ! c ! d = weights g ! c ! d"
      using cd1 by simp_all
    show "\<bar>weights g ! a ! b\<bar> \<le> \<bar>weights g ! c ! d\<bar>"
    proof (cases "(a, b) = item x")
      case True
      have "(c, d) \<in> set (edge_list n g)" using cd cda by (simp add: set_edge_list)
      then have "(c, d) \<in> set (map item pq)" using items by simp
      then obtain e where e: "e \<in> set pq" "item e = (c, d)" by auto
      have "priority x \<le> priority e" using least e(1) .
      then show ?thesis using px prio [OF e(1)] e(2) True [symmetric] by simp
    next
      case False
      with low [OF ab] have ab1: "adj_matrix g1 ! a ! b = adj_matrix g ! a ! b"
        "weights g1 ! a ! b = weights g ! a ! b" by auto
      then have "\<bar>weights g1 ! a ! b\<bar> \<le> \<bar>weights g1 ! c ! d\<bar>"
        using rem1 h unfolding removed_least_def by metis
      then show ?thesis using ab1 cdw by simp
    qed
  qed
  have "prune_loop (Suc k) pq g = Inr g'" using pop ce run by simp
  moreover have "num_edges g' = length pq - Suc k" using cnt len by simp
  ultimately show ?case
    using wf' kept rem frame clear_edge_frame [OF ce] by simp
qed

lemma prune_loop_fails:
  assumes "queue_inv n pq g" "length pq < k"
  shows "prune_loop k pq g = Inl IndexError"
  using assms
proof (induction k arbitrary: pq g)
  case 0
  then show ?case by simp
next
  case (Suc k)
  show ?case
  proof (cases "pq = []")
    case True
    then show ?thesis by (simp add: heappop_empty)
  next
    case False
    from queue_inv_step [OF Suc.prems(1) False]
    obtain x pq' g1 where pop: "heappop pq = Inr (x, pq')"
      and ce: "clear_edge g (item x) = Inr g1"
      and inv1: "queue_inv n pq' g1" and len: "length pq' = length pq - 1"
      by blast
    have "length pq' < k" using Suc.prems(2) len False by (cases pq) auto
    from Suc.IH [OF inv1 this] pop ce show ?thesis by simp
  qed
qed

lemma mset_shuffle_fold:
  "\<forall>i\<in>set is. i < length x \<Longrightarrow>
     mset (fold (\<lambda>i x. (let j = randbelow i mod (i + 1) in x[i := x ! j, j := x ! i])) is x) = mset x
     \<and> length (fold (\<lambda>i x. (let j = randbelow i mod (i + 1) in x[i := x ! j, j := x ! i])) is x) = length x"
proof (induction "is" arbitrary: x)
  case Nil
  then show ?case by simp
next
  case (Cons i "is")
  define j where "j = randbelow i mod (i + 1)"
  have i: "i < length x" using Cons.prems by simp
  have j: "j < length x" using i unfolding j_def by (metis Suc_eq_plus1 less_Suc_eq_le mod_less_divisor order_le_less_trans zero_less_Suc)
  define y where "y = x[i := x ! j, j := x ! i]"
  have my: "mset y = mset x" unfolding y_def using mset_swap [OF j i] by simp
  have ly: "length y = length x" by (simp add: y_def)
  have "\<forall>i\<in>set is. i < length y" using Cons.prems ly by simp
  from Cons.IH [OF this] my ly show ?case by (simp add: Let_def j_def y_def)
qed

lemma mset_shuffle_list [simp]: "mset (shuffle_list randbelow x) = mset x"
proof -
  have "\<forall>i\<in>set (rev [1..<length x]). i < length x" by simp
  from mset_shuffle_fold [OF this] show ?thesis by (simp add: shuffle_list_def)
qed

lemma collect_entries_lower:
  assumes "well_formed n g"
  shows "collect_entries g (lower_pairs n) []
           = Inr (map (\<lambda>(i, j). Entry (i, j) \<bar>weights g ! i ! j\<bar>) (edge_list n g))"
  using collect_entries_square [of n g "lower_pairs n" "[]"] assms
  by (simp add: well_formed_def edge_list_def)

lemma queue_inv_initial:
  assumes wf: "well_formed n g"
    and ms: "mset pq = mset (map (\<lambda>(i, j). Entry (i, j) \<bar>weights g ! i ! j\<bar>) (edge_list n g))"
  shows "queue_inv n (heapify pq) g"
proof -
  let ?pq0 = "map (\<lambda>(i, j). Entry (i, j) \<bar>weights g ! i ! j\<bar>) (edge_list n g)"
  have m: "mset (heapify pq) = mset ?pq0" using ms by simp
  have it: "map item ?pq0 = edge_list n g" by (simp add: comp_def split_beta)
  have "mset (map item (heapify pq)) = mset (map item ?pq0)"
    by (simp only: mset_map m)
  then have mi: "mset (map item (heapify pq)) = mset (edge_list n g)" by (simp only: it)
  have d: "distinct (map item (heapify pq))"
    using mi distinct_edge_list by (metis mset_eq_imp_distinct_iff)
  have s: "set (map item (heapify pq)) = set (edge_list n g)"
    using mi by (rule mset_eq_setD)
  have "set (heapify pq) = set ?pq0" using m by (rule mset_eq_setD)
  moreover have "\<forall>e\<in>set ?pq0. priority e = \<bar>weights g ! fst (item e) ! snd (item e)\<bar>"
    by (simp add: split_beta)
  ultimately have p: "\<forall>e\<in>set (heapify pq). priority e = \<bar>weights g ! fst (item e) ! snd (item e)\<bar>"
    by (simp only:)
  show ?thesis
    unfolding queue_inv_def using wf heapify_heap d s p by blast
qed

lemma num_edges_set_node_attributes [simp]: "num_edges (set_node_attributes g) = num_edges g"
  by (simp add: num_edges_def set_node_attributes_def)

lemma well_formed_set_node_attributes [simp]:
  "well_formed n (set_node_attributes g) = well_formed n g"
  by (simp add: well_formed_def set_node_attributes_def)

lemma kept_unchanged_set_node_attributes [simp]:
  "kept_unchanged n g (set_node_attributes g') = kept_unchanged n g g'"
  by (simp add: kept_unchanged_def set_node_attributes_def)

lemma removed_least_set_node_attributes [simp]:
  "removed_least n g (set_node_attributes g') = removed_least n g g'"
  by (simp add: removed_least_def set_node_attributes_def)

lemma prune_queue:
  assumes "well_formed n g"
  shows "\<exists>pq. collect_entries g (lower_pairs n) [] = Inr pq
           \<and> queue_inv n (heapify (if shuffle then shuffle_list randbelow pq else pq)) g
           \<and> length pq = num_edges g"
proof -
  let ?pq = "map (\<lambda>(i, j). Entry (i, j) \<bar>weights g ! i ! j\<bar>) (edge_list n g)"
  have c: "collect_entries g (lower_pairs n) [] = Inr ?pq"
    using assms by (rule collect_entries_lower)
  have "mset (if shuffle then shuffle_list randbelow ?pq else ?pq) = mset ?pq" by simp
  with assms have "queue_inv n (heapify (if shuffle then shuffle_list randbelow ?pq else ?pq)) g"
    by (rule queue_inv_initial)
  moreover have "length ?pq = num_edges g" using assms by (simp add: num_edges_edge_list)
  ultimately show ?thesis using c by blast
qed

lemma length_shuffle_list [simp]: "length (shuffle_list randbelow x) = length x"
  using mset_shuffle_list [of randbelow x] by (metis size_mset)

lemma prune_edges_ok:
  assumes wf: "well_formed n g" and e: "0 \<le> edges" "edges \<le> int (num_edges g)"
  shows "\<exists>g'. prune_edges n g edges shuffle randbelow = Inr g' \<and> well_formed n g'
           \<and> num_edges g' = nat edges \<and> kept_unchanged n g g' \<and> removed_least n g g'
           \<and> (edges = int (num_edges g) \<longrightarrow> adj_matrix g' = adj_matrix g \<and> weights g' = weights g)"
proof -
  from prune_queue [OF wf, of shuffle randbelow] obtain pq
    where c: "collect_entries g (lower_pairs n) [] = Inr pq"
      and q: "queue_inv n (heapify (if shuffle then shuffle_list randbelow pq else pq)) g"
      and l: "length pq = num_edges g"
    by blast
  define pq2 where "pq2 = heapify (if shuffle then shuffle_list randbelow pq else pq)"
  define k where "k = nat (int (num_edges g) - edges)"
  have l2: "length pq2 = num_edges g" by (simp add: pq2_def l)
  have k: "k \<le> length pq2" using e l2 by (simp add: k_def)
  from prune_loop_ok [OF q [folded pq2_def] k] obtain g1
    where run: "prune_loop k pq2 g = Inr g1" and wf1: "well_formed n g1"
      and cnt: "num_edges g1 = length pq2 - k"
      and kept: "kept_unchanged n g g1" and rem: "removed_least n g g1"
    by blast
  have res: "prune_edges n g edges shuffle randbelow = Inr (set_node_attributes g1)"
    using c run by (simp add: prune_edges_def Let_def pq2_def k_def)
  have cnt': "num_edges g1 = nat edges" using cnt l2 e by (simp add: k_def)
  have same: "adj_matrix g1 = adj_matrix g \<and> weights g1 = weights g" if "edges = int (num_edges g)"
  proof -
    have "k = 0" using that by (simp add: k_def)
    with run show ?thesis by simp
  qed
  have "adj_matrix (set_node_attributes g1) = adj_matrix g1"
    "weights (set_node_attributes g1) = weights g1"
    by (simp_all add: set_node_attributes_def)
  then show ?thesis
    using res wf1 cnt' kept rem same by simp
qed

lemma prune_edges_above:
  assumes wf: "well_formed n g" and e: "int (num_edges g) \<le> edges"
  shows "prune_edges n g edges shuffle randbelow = Inr (set_node_attributes g)"
proof -
  from prune_queue [OF wf, of shuffle randbelow] obtain pq
    where c: "collect_entries g (lower_pairs n) [] = Inr pq" by blast
  have "nat (int (num_edges g) - edges) = 0" using e by simp
  with c show ?thesis by (simp add: prune_edges_def Let_def)
qed

lemma prune_edges_negative:
  assumes wf: "well_formed n g" and e: "edges < 0"
  shows "prune_edges n g edges shuffle randbelow = Inl IndexError"
proof -
  from prune_queue [OF wf, of shuffle randbelow] obtain pq
    where c: "collect_entries g (lower_pairs n) [] = Inr pq"
      and q: "queue_inv n (heapify (if shuffle then shuffle_list randbelow pq else pq)) g"
      and l: "length pq = num_edges g"
    by blast
  have "length (heapify (if shuffle then shuffle_list randbelow pq else pq))
          < nat (int (num_edges g) - edges)"
    using e l by simp
  from prune_loop_fails [OF q this] c show ?thesis
    by (simp add: prune_edges_def Let_def)
qed

lemma length_lower_pairs: "length (lower_pairs n) = n * (n - 1) div 2"
proof (induction n)
  case 0
  then show ?case by (simp add: lower_pairs_def)
next
  case (Suc n)
  have "n * (n - 1) div 2 + n = (n * (n - 1) + 2 * n) div 2" by simp
  also have "n * (n - 1) + 2 * n = Suc n * n" by (cases n) simp_all
  finally show ?case using Suc by (simp add: lower_pairs_Suc)
qed

lemma prune_start_patterns:
  assumes "patterns = p # ps" "\<forall>s\<in>set patterns. length s = length p"
  shows "\<exists>g0. prune_start patterns None = Inr (length p, g0) \<and> well_formed (length p) g0
           \<and> num_edges g0 = length p * (length p - 1) div 2"
proof -
  define n where "n = length p"
  define h where "h = \<lparr>nodes = node_views (fully_connected n), adj_matrix = fully_connected n,
                weights = matrix_of n (\<lambda>i j. 0),
                full_weights = matrix_of n (\<lambda>i j. 0),
                stored_states = patterns\<rparr>"
  have lf: "length (fully_connected n) = n" by (simp add: fully_connected_def)
  have "\<not> list_ex (\<lambda>s. length s \<noteq> n) patterns"
    using assms(2) by (simp add: list_ex_iff n_def)
  then have H: "HopfieldGraph (fully_connected n) patterns = Inr h"
    using assms(1) by (simp add: HopfieldGraph_def lf h_def)
  have st: "prune_start patterns None = Inr (n, train h)"
    using H assms(1) by (simp add: prune_start_def n_def Let_def)
  have adj: "adj_matrix (train h) = fully_connected n"
    by (simp add: train_def Let_def h_def)
  have sqw: "square n (weights (train h))"
    by (simp add: train_def Let_def h_def lf)
  have sqa: "square n (fully_connected n)" by (simp add: fully_connected_def)
  have ent: "fully_connected n ! i ! j = 1 \<and> fully_connected n ! j ! i = 1" if "j < i" "i < n" for i j
    using that by (simp add: fully_connected_def)
  have wf: "well_formed n (train h)"
    unfolding well_formed_def adj list_all_iff set_lower_pairs
    using sqw sqa ent by auto
  have "edge_list n (train h) = lower_pairs n"
    unfolding edge_list_def adj
    by (rule filter_True) (auto simp: set_lower_pairs ent)
  then have "num_edges (train h) = n * (n - 1) div 2"
    using num_edges_edge_list [OF wf] by (simp add: length_lower_pairs)
  with st wf show ?thesis unfolding n_def by blast
qed


text \<open>
  C4. For patterns of one length \<open>N\<close> and a target between 0 and the \<open>N (N - 1) / 2\<close> edges
  of the trained fully connected model, pruning returns a model with exactly the target
  number of edges; the edges left keep their weights, every removed edge has a magnitude
  no larger than that of any edge left, and when the target is the initial count the
  adjacency and the weights are those of the trained model.
\<close>

theorem prune_exact_edge_count:
  assumes "patterns = p # ps" "\<forall>s\<in>set patterns. length s = length p"
    and "0 \<le> edges" "edges \<le> int (length p * (length p - 1) div 2)"
  shows "\<exists>g0 g. prune_start patterns None = Inr (length p, g0)
           \<and> num_edges g0 = length p * (length p - 1) div 2
           \<and> pruned_hopfield patterns edges None shuffle randbelow = Inr g
           \<and> num_edges g = nat edges
           \<and> kept_unchanged (length p) g0 g \<and> removed_least (length p) g0 g
           \<and> (edges = int (num_edges g0) \<longrightarrow> adj_matrix g = adj_matrix g0 \<and> weights g = weights g0)"
proof -
  from prune_start_patterns [OF assms(1,2)] obtain g0
    where st: "prune_start patterns None = Inr (length p, g0)"
      and wf: "well_formed (length p) g0"
      and n0: "num_edges g0 = length p * (length p - 1) div 2"
    by blast
  have "edges \<le> int (num_edges g0)" using assms(4) n0 by simp
  from prune_edges_ok [OF wf assms(3) this, of shuffle randbelow] obtain g
    where "prune_edges (length p) g0 edges shuffle randbelow = Inr g"
      "num_edges g = nat edges" "kept_unchanged (length p) g0 g" "removed_least (length p) g0 g"
      "edges = int (num_edges g0) \<longrightarrow> adj_matrix g = adj_matrix g0 \<and> weights g = weights g0"
    by blast
  moreover have "pruned_hopfield patterns edges None shuffle randbelow
      = prune_edges (length p) g0 edges shuffle randbelow"
    using st by (simp add: pruned_hopfield_def)
  ultimately show ?thesis using st n0 by auto
qed

theorem prune_exact_edge_count_witness:
  "\<exists>g. pruned_hopfield [[1, 0, 1, 0], [0, 1, 0, 1]] 3 None True (\<lambda>i. 0) = Inr g \<and> num_edges g = 3"
  using prune_exact_edge_count [of "[[1, 0, 1, 0], [0, 1, 0, 1]]" "[1, 0, 1, 0]" "[[0, 1, 0, 1]]" 3 True "\<lambda>i. 0"]
  by auto


text \<open>
  C5, as the code has it. The target is not validated. A target above the edge count makes
  \<^verbatim>\<open>range\<close> empty: nothing is removed and the model is returned as it is, without an
  error. A negative target asks for more pops than the queue has entries, and the pop
  from the empty queue raises IndexError.
\<close>

theorem prune_without_validation:
  assumes "prune_start patterns graph = Inr (n, g0)" "well_formed n g0"
  shows "(int (num_edges g0) < edges \<longrightarrow>
            pruned_hopfield patterns edges graph shuffle randbelow = Inr (set_node_attributes g0))
       \<and> (edges < 0 \<longrightarrow>
            pruned_hopfield patterns edges graph shuffle randbelow = Inl IndexError)"
  using assms prune_edges_above [of n g0 edges shuffle randbelow]
    prune_edges_negative [of n g0 edges shuffle randbelow]
  by (simp add: pruned_hopfield_def)

theorem prune_without_validation_witness:
  "pruned_hopfield [[1, 0]] 5 None True (\<lambda>i. 0)
     = Inr (set_node_attributes
         \<lparr>nodes = [[1], [0]], adj_matrix = [[0, 1], [1, 0]], weights = [[0, - 1], [- 1, 0]],
          full_weights = [[0, - 1], [- 1, 0]], stored_states = [[1, 0]]\<rparr>)
   \<and> pruned_hopfield [[1, 0]] (- 2) None True (\<lambda>i. 0) = Inl IndexError"
proof -
  let ?g0 = "\<lparr>nodes = [[1], [0]], adj_matrix = [[0, 1], [1, 0]], weights = [[0, - 1], [- 1, 0]],
          full_weights = [[0, - 1], [- 1, 0]], stored_states = [[1, 0]]\<rparr>"
  have st: "prune_start [[1, 0]] None = Inr (2, ?g0)" by code_simp
  have wf: "well_formed 2 ?g0" by code_simp
  have n: "num_edges ?g0 = 1" by code_simp
  show ?thesis
    using prune_without_validation [OF st wf, of 5 True "\<lambda>i. 0"]
      prune_without_validation [OF st wf, of "- 2" True "\<lambda>i. 0"] n
    by simp
qed

text \<open>
  C5 as stated fails: with one edge, the target 5 is accepted and the trained model comes
  back, and the target \<open>-1\<close> raises IndexError, not InvalidArgument.
\<close>

theorem prune_target_not_validated:
  "pruned_hopfield [[1, 0]] 5 None True (\<lambda>i. 0)
     = Inr \<lparr>nodes = [[1], [0]], adj_matrix = [[0, 1], [1, 0]], weights = [[0, - 1], [- 1, 0]],
            full_weights = [[0, - 1], [- 1, 0]], stored_states = [[1, 0]]\<rparr>
   \<and> pruned_hopfield [[1, 0]] (- 1) None True (\<lambda>i. 0) = Inl IndexError"
  by code_simp

section \<open>Facts about the lattice\<close>

text \<open>
  \<open>ones n m\<close> is the set of index pairs at which the \<open>n \<times> n\<close> matrix \<open>m\<close> holds 1.
  \<open>wanted intersection neighbors i j\<close> is the test of lines 234 to 236 that lets
  \<^verbatim>\<open>make_edge(i, j)\<close> run. \<open>lattice_neighbors\<close> is the list of neighbor selections that
  \<^verbatim>\<open>hopfield_lattice\<close> computes at line 229.
\<close>

definition ones :: "nat \<Rightarrow> int list list \<Rightarrow> (nat \<times> nat) set" where
  "ones n m = {(a, b). a < n \<and> b < n \<and> m ! a ! b = 1}"

lemma ones_clear_both:
  assumes "square n m" "i < n" "j < n"
  shows "ones n (clear_both m i j 1) = ones n m \<union> {(i, j), (j, i)}"
proof (rule set_eqI)
  fix p :: "nat \<times> nat"
  obtain a b where p: "p = (a, b)" by (cases p)
  show "p \<in> ones n (clear_both m i j 1) \<longleftrightarrow> p \<in> ones n m \<union> {(i, j), (j, i)}"
  proof (cases "a < n \<and> b < n")
    case False
    then show ?thesis using assms(2,3) unfolding p ones_def by blast
  next
    case True
    then have an: "a < n" and bn: "b < n" by simp_all
    note v = nth_clear_both [OF assms an bn, of 1]
    show ?thesis
    proof (cases "(a = i \<and> b = j) \<or> (a = j \<and> b = i)")
      case c: True
      then have "clear_both m i j 1 ! a ! b = 1" unfolding v by (simp only: if_True)
      moreover have "(a, b) \<in> {(i, j), (j, i)}" using c by blast
      ultimately show ?thesis unfolding p ones_def using True by blast
    next
      case c: False
      then have e: "clear_both m i j 1 ! a ! b = m ! a ! b" unfolding v by (simp only: if_False)
      have notin: "(a, b) \<notin> {(i, j), (j, i)}" using c by blast
      have "(a, b) \<in> ones n (clear_both m i j 1) \<longleftrightarrow> (a, b) \<in> ones n m"
        unfolding ones_def using True by (simp add: e)
      then show ?thesis unfolding p using notin by blast
    qed
  qed
qed

lemma train_edge_eq:
  assumes "square n (adj_matrix g)" "square n (weights g)" "i < n" "j < n"
  shows "train_edge g i j
           = Inr (g\<lparr>weights := clear_both (weights g) i j
                       (if adj_matrix g ! i ! j = 0 then 0 else hebbian (stored_states g) i j)\<rparr>)"
  unfolding train_edge_def Let_def
  by (simp only: getitem2_square [OF assms(1,3,4)] sum.case setitem2_twice [OF assms(2,3,4)])

lemma make_edge_eq:
  assumes sa: "square n (adj_matrix g)" and sw: "square n (weights g)" and i: "i < n" and j: "j < n"
  shows "make_edge g i j
           = Inr (g\<lparr>adj_matrix := clear_both (adj_matrix g) i j 1,
                    weights := clear_both (weights g) i j (hebbian (stored_states g) i j)\<rparr>)"
proof -
  let ?g2 = "g\<lparr>adj_matrix := clear_both (adj_matrix g) i j 1\<rparr>"
  have 1: "make_edge g i j = train_edge ?g2 i j"
    unfolding make_edge_def by (simp only: setitem2_twice [OF sa i j])
  have sa2: "square n (adj_matrix ?g2)" using square_clear_both [OF sa i j] by simp
  have sw2: "square n (weights ?g2)" using sw by simp
  have "adj_matrix ?g2 ! i ! j = 1" using nth_clear_both [OF sa i j i j, of 1] by simp
  then have nz: "(adj_matrix ?g2 ! i ! j = 0) = False" by simp
  show ?thesis
    unfolding 1 train_edge_eq [OF sa2 sw2 i j] nz by simp
qed

definition wanted :: "bool \<Rightarrow> nat list list \<Rightarrow> nat \<Rightarrow> nat \<Rightarrow> bool" where
  "wanted intersection neighbors i j = (intersection \<longrightarrow> i \<in> set (neighbors ! j))"

lemma lattice_inner_ok:
  assumes "square n (adj_matrix g)" "square n (weights g)" "i < n" "set js \<subseteq> {..<n}"
    "length neighbors = n"
  shows "\<exists>g'. lattice_inner intersection neighbors i js g = Inr g'
           \<and> square n (adj_matrix g') \<and> square n (weights g')
           \<and> ones n (adj_matrix g') = ones n (adj_matrix g)
                \<union> {p. \<exists>j\<in>set js. wanted intersection neighbors i j \<and> (p = (i, j) \<or> p = (j, i))}"
  using assms(1,2,4)
proof (induction js arbitrary: g)
  case Nil
  then show ?case by simp
next
  case (Cons j js)
  have j: "j < n" and js: "set js \<subseteq> {..<n}" using Cons.prems(3) by simp_all
  have gj: "getitem neighbors j = Inr (neighbors ! j)" using j assms(5) by (simp add: getitem_def)
  show ?case
  proof (cases "wanted intersection neighbors i j")
    case False
    then have skip: "lattice_inner intersection neighbors i (j # js) g
        = lattice_inner intersection neighbors i js g"
      using gj by (simp add: wanted_def)
    from Cons.IH [OF Cons.prems(1,2) js] obtain g' where
      r: "lattice_inner intersection neighbors i js g = Inr g'"
      "square n (adj_matrix g')" "square n (weights g')"
      "ones n (adj_matrix g') = ones n (adj_matrix g)
                \<union> {p. \<exists>j\<in>set js. wanted intersection neighbors i j \<and> (p = (i, j) \<or> p = (j, i))}"
      by blast
    have "{p. \<exists>j'\<in>set (j # js). wanted intersection neighbors i j' \<and> (p = (i, j') \<or> p = (j', i))}
        = {p. \<exists>j\<in>set js. wanted intersection neighbors i j \<and> (p = (i, j) \<or> p = (j, i))}"
      using False by auto
    with r skip show ?thesis by (simp only:) blast
  next
    case True
    define g1 where "g1 = g\<lparr>adj_matrix := clear_both (adj_matrix g) i j 1,
                    weights := clear_both (weights g) i j (hebbian (stored_states g) i j)\<rparr>"
    have me: "make_edge g i j = Inr g1"
      unfolding g1_def using Cons.prems(1,2) assms(3) j by (rule make_edge_eq)
    have step: "lattice_inner intersection neighbors i (j # js) g
        = lattice_inner intersection neighbors i js g1"
      using gj me True by (simp add: wanted_def)
    have sa1: "square n (adj_matrix g1)"
      using square_clear_both [OF Cons.prems(1) assms(3) j] by (simp add: g1_def)
    have sw1: "square n (weights g1)"
      using square_clear_both [OF Cons.prems(2) assms(3) j] by (simp add: g1_def)
    have o1: "ones n (adj_matrix g1) = ones n (adj_matrix g) \<union> {(i, j), (j, i)}"
      using ones_clear_both [OF Cons.prems(1) assms(3) j] by (simp add: g1_def)
    from Cons.IH [OF sa1 sw1 js] obtain g' where
      r: "lattice_inner intersection neighbors i js g1 = Inr g'"
      "square n (adj_matrix g')" "square n (weights g')"
      "ones n (adj_matrix g') = ones n (adj_matrix g1)
                \<union> {p. \<exists>j\<in>set js. wanted intersection neighbors i j \<and> (p = (i, j) \<or> p = (j, i))}"
      by blast
    have "{p. \<exists>j'\<in>set (j # js). wanted intersection neighbors i j' \<and> (p = (i, j') \<or> p = (j', i))}
        = {(i, j), (j, i)}
          \<union> {p. \<exists>j\<in>set js. wanted intersection neighbors i j \<and> (p = (i, j) \<or> p = (j, i))}"
      using True by auto
    with r o1 step show ?thesis by (simp only: Un_assoc) blast
  qed
qed

lemma lattice_outer_ok:
  assumes "square n (adj_matrix g)" "square n (weights g)" "set is \<subseteq> {..<n}"
    "length neighbors = n" "\<forall>ns\<in>set neighbors. set ns \<subseteq> {..<n}"
  shows "\<exists>g'. lattice_outer intersection neighbors is g = Inr g'
           \<and> square n (adj_matrix g') \<and> square n (weights g')
           \<and> ones n (adj_matrix g') = ones n (adj_matrix g)
                \<union> {p. \<exists>i\<in>set is. \<exists>j\<in>set (neighbors ! i).
                        wanted intersection neighbors i j \<and> (p = (i, j) \<or> p = (j, i))}"
  using assms(1,2,3)
proof (induction "is" arbitrary: g)
  case Nil
  then show ?case by simp
next
  case (Cons i "is")
  have i: "i < n" and is': "set is \<subseteq> {..<n}" using Cons.prems(3) by simp_all
  have gi: "getitem neighbors i = Inr (neighbors ! i)" using i assms(4) by (simp add: getitem_def)
  have ni: "set (neighbors ! i) \<subseteq> {..<n}" using assms(4,5) i by (metis nth_mem)
  from lattice_inner_ok [OF Cons.prems(1,2) i ni assms(4), of intersection] obtain g1 where
    r1: "lattice_inner intersection neighbors i (neighbors ! i) g = Inr g1"
    "square n (adj_matrix g1)" "square n (weights g1)"
    "ones n (adj_matrix g1) = ones n (adj_matrix g)
        \<union> {p. \<exists>j\<in>set (neighbors ! i). wanted intersection neighbors i j \<and> (p = (i, j) \<or> p = (j, i))}"
    by blast
  from Cons.IH [OF r1(2,3) is'] obtain g' where
    r: "lattice_outer intersection neighbors is g1 = Inr g'"
    "square n (adj_matrix g')" "square n (weights g')"
    "ones n (adj_matrix g') = ones n (adj_matrix g1)
        \<union> {p. \<exists>i\<in>set is. \<exists>j\<in>set (neighbors ! i).
                        wanted intersection neighbors i j \<and> (p = (i, j) \<or> p = (j, i))}"
    by blast
  have step: "lattice_outer intersection neighbors (i # is) g = Inr g'"
    using gi r1(1) r(1) by simp
  have "{p. \<exists>i'\<in>set (i # is). \<exists>j\<in>set (neighbors ! i').
                        wanted intersection neighbors i' j \<and> (p = (i', j) \<or> p = (j, i'))}
      = {p. \<exists>j\<in>set (neighbors ! i). wanted intersection neighbors i j \<and> (p = (i, j) \<or> p = (j, i))}
        \<union> {p. \<exists>i\<in>set is. \<exists>j\<in>set (neighbors ! i).
                        wanted intersection neighbors i j \<and> (p = (i, j) \<or> p = (j, i))}"
    by auto
  with r r1(4) step show ?case by (simp only: Un_assoc) blast
qed

lemma heappop_Inr:
  assumes "heappop pq = Inr (x, pq')"
  shows "mset pq = add_mset x (mset pq')"
proof -
  have "pq \<noteq> []" using assms by (auto simp: heappop_def)
  from heappop_props [OF this] assms show ?thesis by auto
qed

lemma neighbor_entries_items:
  "neighbor_entries g i js pq = Inr pq' \<Longrightarrow> item ` set pq' = item ` set pq \<union> set js"
proof (induction js arbitrary: pq)
  case Nil
  then show ?case by simp
next
  case (Cons j js)
  then obtain w where w: "getitem2 (full_weights g) i j = Inr w"
    by (cases "getitem2 (full_weights g) i j") simp_all
  with Cons.prems have "neighbor_entries g i js (pq @ [Entry j (- \<bar>w\<bar>)]) = Inr pq'" by simp
  from Cons.IH [OF this] show ?case by auto
qed

lemma set_set_add [simp]: "set (set_add s x) = insert x (set s)"
  by (auto simp: set_add_def)

lemma pop_neighbors_items:
  "pop_neighbors k pq acc = Inr ns \<Longrightarrow> set ns \<subseteq> set acc \<union> item ` set pq"
proof (induction k arbitrary: pq acc)
  case 0
  then show ?case by simp
next
  case (Suc k)
  then obtain x pq' where pop: "heappop pq = Inr (x, pq')"
    by (cases "heappop pq") auto
  with Suc.prems have "pop_neighbors k pq' (set_add acc (item x)) = Inr ns" by simp
  from Suc.IH [OF this] have 1: "set ns \<subseteq> insert (item x) (set acc) \<union> item ` set pq'" by simp
  from mset_add_member [OF heappop_Inr [OF pop]] have "x \<in> set pq" "set pq' \<subseteq> set pq" by simp_all
  with 1 show ?case by auto
qed

lemma node_neighbors_range:
  assumes "node_neighbors g k i = Inr ns"
  shows "set ns \<subseteq> {..<length (nodes g)}"
proof -
  from assms obtain pq where pq: "neighbor_entries g i [0..<length (nodes g)] [] = Inr pq"
    and pop: "pop_neighbors (nat k) (heapify pq) [] = Inr ns"
    by (cases "neighbor_entries g i [0..<length (nodes g)] []") (simp_all add: node_neighbors_def)
  have "item ` set pq = {..<length (nodes g)}"
    using neighbor_entries_items [OF pq] by auto
  moreover have "set (heapify pq) = set pq" using mset_heapify [of pq] by (rule mset_eq_setD)
  ultimately show ?thesis using pop_neighbors_items [OF pop] by simp
qed

lemma neighbors_loop_range:
  "neighbors_loop g k is res = Inr nb \<Longrightarrow>
     length nb = length res + length is
     \<and> (\<forall>ns\<in>set nb. ns \<in> set res \<or> set ns \<subseteq> {..<length (nodes g)})"
proof (induction "is" arbitrary: res)
  case Nil
  then show ?case by simp
next
  case (Cons i "is")
  then obtain ns where ns: "node_neighbors g k i = Inr ns"
    by (cases "node_neighbors g k i") simp_all
  with Cons.prems have "neighbors_loop g k is (res @ [ns]) = Inr nb" by simp
  from Cons.IH [OF this] node_neighbors_range [OF ns] show ?case by auto
qed

lemma nearest_neighbors_range:
  assumes "nearest_neighbors g k = Inr nb"
  shows "length nb = length (nodes g) \<and> (\<forall>ns\<in>set nb. set ns \<subseteq> {..<length (nodes g)})"
  using neighbors_loop_range [OF assms [unfolded nearest_neighbors_def]] by simp

lemma set_upper_pairs: "set (upper_pairs n) = {(a, b). a < b \<and> b < n}"
  unfolding upper_pairs_swap set_map set_lower_pairs by auto

lemma num_edges_ones:
  assumes "square n (adj_matrix g)"
  shows "num_edges g = length (filter (\<lambda>p. p \<in> ones n (adj_matrix g)) (upper_pairs n))"
proof -
  have "(case p of (i, j) \<Rightarrow> getitem2 (adj_matrix g) i j = Inr 1) = (p \<in> ones n (adj_matrix g))"
    if "p \<in> set (upper_pairs n)" for p
  proof -
    obtain a b where p: "p = (a, b)" by (cases p)
    with that have ab: "a < n" "b < n" by (auto simp: set_upper_pairs)
    show ?thesis using getitem2_square [OF assms ab] ab by (simp add: p ones_def)
  qed
  then have "filter (\<lambda>(i, j). getitem2 (adj_matrix g) i j = Inr 1) (upper_pairs n)
           = filter (\<lambda>p. p \<in> ones n (adj_matrix g)) (upper_pairs n)"
    by (intro filter_cong) simp_all
  then show ?thesis using assms by (simp add: num_edges_def square_length)
qed

lemma length_filter_mono:
  "(\<And>x. x \<in> set xs \<Longrightarrow> P x \<Longrightarrow> Q x) \<Longrightarrow> length (filter P xs) \<le> length (filter Q xs)"
  by (induction xs) auto

text \<open>The run of the lattice builder up to the edge loops.\<close>

lemma lattice_start:
  assumes "hopfield_lattice states k intersection = Inr g"
  shows "\<exists>n h nb. states \<noteq> [] \<and> n = length (hd states)
           \<and> HopfieldGraph (empty_graph n) states = Inr h
           \<and> nearest_neighbors (train h) k = Inr nb"
proof -
  from assms obtain s0 ss where s: "states = s0 # ss"
    by (cases states) (simp_all add: hopfield_lattice_def)
  from assms s obtain h where h: "HopfieldGraph (empty_graph (length s0)) states = Inr h"
    by (cases "HopfieldGraph (empty_graph (length s0)) states") (simp_all add: hopfield_lattice_def)
  from assms s h obtain nb where "nearest_neighbors (train h) k = Inr nb"
    by (cases "nearest_neighbors (train h) k") (simp_all add: hopfield_lattice_def Let_def)
  with s h show ?thesis by simp
qed

lemma lattice_run:
  assumes s: "states \<noteq> []" and h: "HopfieldGraph (empty_graph (length (hd states))) states = Inr h"
    and nb: "nearest_neighbors (train h) k = Inr nb"
  shows "\<exists>g. hopfield_lattice states k intersection = Inr g
           \<and> square (length (hd states)) (adj_matrix g)
           \<and> ones (length (hd states)) (adj_matrix g)
               = {p. \<exists>i<length (hd states). \<exists>j\<in>set (nb ! i).
                        wanted intersection nb i j \<and> (p = (i, j) \<or> p = (j, i))}"
proof -
  define n where "n = length (hd states)"
  obtain s0 ss where st: "states = s0 # ss" using s by (cases states) auto
  have n: "n = length s0" by (simp add: n_def st)
  have hh: "h = \<lparr>nodes = node_views (empty_graph n), adj_matrix = empty_graph n,
                weights = matrix_of (length (empty_graph n)) (\<lambda>i j. 0),
                full_weights = matrix_of (length (empty_graph n)) (\<lambda>i j. 0),
                stored_states = states\<rparr>"
    using h unfolding n_def [symmetric] by (simp add: HopfieldGraph_def split: if_splits)
  have le: "length (empty_graph n) = n" by (simp add: empty_graph_def)
  have adj: "adj_matrix (train h) = empty_graph n" by (simp add: hh train_def Let_def)
  have sa: "square n (adj_matrix (train h))" unfolding adj by (simp add: empty_graph_def)
  have sw: "square n (weights (train h))" by (simp add: hh train_def Let_def le)
  have ln: "length (nodes (train h)) = n"
    by (simp add: hh train_def Let_def node_views_def le)
  from nearest_neighbors_range [OF nb] ln
  have v: "length nb = n" "\<forall>ns\<in>set nb. set ns \<subseteq> {..<n}" by simp_all
  have r: "set [0..<n] \<subseteq> {..<n}" by auto
  from lattice_outer_ok [OF sa sw r v, of intersection] obtain g' where
    run: "lattice_outer intersection nb [0..<n] (train h) = Inr g'"
    and sq: "square n (adj_matrix g')"
    and o: "ones n (adj_matrix g') = ones n (adj_matrix (train h))
                \<union> {p. \<exists>i\<in>set [0..<n]. \<exists>j\<in>set (nb ! i).
                        wanted intersection nb i j \<and> (p = (i, j) \<or> p = (j, i))}"
    by blast
  have "ones n (adj_matrix (train h)) = {}"
    unfolding adj by (auto simp: ones_def empty_graph_def)
  with o have o': "ones n (adj_matrix g')
      = {p. \<exists>i<n. \<exists>j\<in>set (nb ! i). wanted intersection nb i j \<and> (p = (i, j) \<or> p = (j, i))}"
    by auto
  have res: "hopfield_lattice states k intersection = Inr (set_node_attributes g')"
    using h nb run unfolding n_def [symmetric]
    by (simp add: hopfield_lattice_def st Let_def n [symmetric])
  have "adj_matrix (set_node_attributes g') = adj_matrix g'" by (simp add: set_node_attributes_def)
  with res sq o' show ?thesis unfolding n_def by auto
qed

definition lattice_neighbors :: "int list list \<Rightarrow> int \<Rightarrow> py_error + nat list list" where
  "lattice_neighbors states k =
     (case states of
        [] \<Rightarrow> Inl IndexError
      | s0 # ss \<Rightarrow>
          (case HopfieldGraph (empty_graph (length s0)) states of
             Inl e \<Rightarrow> Inl e
           | Inr h \<Rightarrow> nearest_neighbors (train h) k))"

lemma ones_lattice_pair:
  assumes "i < n" "j < n"
  shows "(i, j) \<in> {p. \<exists>i'<n. \<exists>j'\<in>set (nb ! i').
                        wanted b nb i' j' \<and> (p = (i', j') \<or> p = (j', i'))}
         \<longleftrightarrow> (j \<in> set (nb ! i) \<and> wanted b nb i j) \<or> (i \<in> set (nb ! j) \<and> wanted b nb j i)"
  using assms by blast


text \<open>
  C7. For the same patterns and the same \<open>k\<close> (hence the same neighbor selections), the run
  with \<^verbatim>\<open>intersection=True\<close> returns whenever the run with \<^verbatim>\<open>intersection=False\<close> does; it
  has the edge \<open>(i, j)\<close> exactly when \<open>j\<close> is a neighbor of \<open>i\<close> and \<open>i\<close> one of \<open>j\<close>, the
  other run has it as soon as one of the two holds; so every edge of the first is an edge
  of the second, and the first has no more edges.
\<close>

theorem mutual_lattice_subset:
  assumes "hopfield_lattice states k False = Inr gF"
  shows "\<exists>gT nb. hopfield_lattice states k True = Inr gT \<and> lattice_neighbors states k = Inr nb
           \<and> (\<forall>i<length (hd states). \<forall>j<length (hd states).
                 (adj_matrix gT ! i ! j = 1 \<longleftrightarrow> j \<in> set (nb ! i) \<and> i \<in> set (nb ! j))
               \<and> (adj_matrix gF ! i ! j = 1 \<longleftrightarrow> j \<in> set (nb ! i) \<or> i \<in> set (nb ! j))
               \<and> (adj_matrix gT ! i ! j = 1 \<longrightarrow> adj_matrix gF ! i ! j = 1))
           \<and> num_edges gT \<le> num_edges gF"
proof -
  define n where "n = length (hd states)"
  from lattice_start [OF assms] obtain h nb where s: "states \<noteq> []"
    and h: "HopfieldGraph (empty_graph n) states = Inr h"
    and nb: "nearest_neighbors (train h) k = Inr nb"
    unfolding n_def by blast
  have ln: "lattice_neighbors states k = Inr nb"
    using s h nb by (cases states) (simp_all add: lattice_neighbors_def n_def)
  from lattice_run [OF s h [unfolded n_def] nb, of False] assms
  have sqF: "square n (adj_matrix gF)"
    and oF: "ones n (adj_matrix gF) = {p. \<exists>i<n. \<exists>j\<in>set (nb ! i).
                        wanted False nb i j \<and> (p = (i, j) \<or> p = (j, i))}"
    unfolding n_def by auto
  from lattice_run [OF s h [unfolded n_def] nb, of True] obtain gT
    where rT: "hopfield_lattice states k True = Inr gT"
    and sqT: "square n (adj_matrix gT)"
    and oT: "ones n (adj_matrix gT) = {p. \<exists>i<n. \<exists>j\<in>set (nb ! i).
                        wanted True nb i j \<and> (p = (i, j) \<or> p = (j, i))}"
    unfolding n_def by auto
  have mem: "(i, j) \<in> ones n m \<longleftrightarrow> m ! i ! j = 1" if "i < n" "j < n" for i j and m :: "int list list"
    using that by (simp add: ones_def)
  have eT: "adj_matrix gT ! i ! j = 1 \<longleftrightarrow> j \<in> set (nb ! i) \<and> i \<in> set (nb ! j)"
    if ij: "i < n" "j < n" for i j
    using mem [OF ij, of "adj_matrix gT"] ones_lattice_pair [OF ij, of nb True]
    unfolding oT wanted_def by blast
  have eF: "adj_matrix gF ! i ! j = 1 \<longleftrightarrow> j \<in> set (nb ! i) \<or> i \<in> set (nb ! j)"
    if ij: "i < n" "j < n" for i j
    using mem [OF ij, of "adj_matrix gF"] ones_lattice_pair [OF ij, of nb False]
    unfolding oF wanted_def by blast
  have sub: "ones n (adj_matrix gT) \<subseteq> ones n (adj_matrix gF)"
    unfolding oT oF wanted_def by blast
  have "num_edges gT \<le> num_edges gF"
    unfolding num_edges_ones [OF sqT] num_edges_ones [OF sqF]
    using sub by (intro length_filter_mono) blast
  with rT ln eT eF show ?thesis unfolding n_def [symmetric] by blast
qed

theorem mutual_lattice_subset_witness:
  "\<exists>gT. hopfield_lattice [[1, 0, 1, 0], [0, 1, 1, 1]] 1 True = Inr gT
     \<and> num_edges gT \<le> num_edges
          \<lparr>nodes = [[3], [3], [2], [0, 1]],
           adj_matrix = [[0, 0, 0, 1], [0, 0, 0, 1], [0, 0, 1, 0], [1, 1, 0, 0]],
           weights = [[0, 0, 0, - 1], [0, 0, 0, 1], [0, 0, 0, 0], [- 1, 1, 0, 0]],
           full_weights = [[0, - 1, 0, - 1], [- 1, 0, 0, 1], [0, 0, 0, 0], [- 1, 1, 0, 0]],
           stored_states = [[1, 0, 1, 0], [0, 1, 1, 1]]\<rparr>"
proof -
  have "hopfield_lattice [[1, 0, 1, 0], [0, 1, 1, 1]] 1 False =
      Inr \<lparr>nodes = [[3], [3], [2], [0, 1]],
           adj_matrix = [[0, 0, 0, 1], [0, 0, 0, 1], [0, 0, 1, 0], [1, 1, 0, 0]],
           weights = [[0, 0, 0, - 1], [0, 0, 0, 1], [0, 0, 0, 0], [- 1, 1, 0, 0]],
           full_weights = [[0, - 1, 0, - 1], [- 1, 0, 0, 1], [0, 0, 0, 0], [- 1, 1, 0, 0]],
           stored_states = [[1, 0, 1, 0], [0, 1, 1, 1]]\<rparr>"
    by code_simp
  from mutual_lattice_subset [OF this] show ?thesis by blast
qed


text \<open>
  C6. The queue of node \<open>i\<close> is filled from every \<open>j\<close> in \<^verbatim>\<open>range(len(hop_graph.nodes))\<close>,
  \<open>i\<close> itself included. For the patterns \<open>[1, 1]\<close> and \<open>[1, 0]\<close> all trained weights are 0,
  node 1 selects itself as its nearest neighbor, and the graph gets the self-loop
  \<open>adj[1][1] = 1\<close>.
\<close>

theorem lattice_selects_self:
  "lattice_neighbors [[1, 1], [1, 0]] 1 = Inr [[1], [1]]
   \<and> hopfield_lattice [[1, 1], [1, 0]] 1 False
       = Inr \<lparr>nodes = [[1], [0, 1]], adj_matrix = [[0, 1], [1, 1]],
              weights = [[0, 0], [0, 0]], full_weights = [[0, 0], [0, 0]],
              stored_states = [[1, 1], [1, 0]]\<rparr>"
  by code_simp


section \<open>Facts about the block model\<close>

text \<open>
  \<open>scaled r x\<close> is the entry \<open>x\<close> multiplied by \<open>r\<close>, or the KeyError that the read raised.
  \<open>sharing edge_probs r\<close> is the number of keys of the table that hold the inner dict \<open>r\<close>.
\<close>

definition scaled :: "real \<Rightarrow> py_error + real \<Rightarrow> py_error + real" where
  "scaled r x = map_sum id (\<lambda>p. r * p) x"

definition sharing :: "prob_table \<Rightarrow> nat \<Rightarrow> nat" where
  "sharing edge_probs r =
     length (filter (\<lambda>k. dict_get edge_probs k = Inr r) (dict_keys edge_probs))"

lemma dict_get_Inr: "dict_get d k = Inr v \<longleftrightarrow> map_of d k = Some v"
  by (simp add: dict_get_def split: option.split)

lemma dict_get_key: "dict_get d k = Inr v \<Longrightarrow> k \<in> set (dict_keys d)"
  by (auto simp: dict_get_Inr dict_keys_def dest: map_of_SomeD intro: rev_image_eqI)

lemma dict_get_of_key: "k \<in> set (dict_keys d) \<Longrightarrow> \<exists>v. dict_get d k = Inr v"
  by (cases "map_of d k") (auto simp: dict_get_def dict_keys_def map_of_eq_None_iff)

lemma dict_get_update: "dict_get (AList.update k v d) k' = (if k' = k then Inr v else dict_get d k')"
  by (simp add: dict_get_def AList.update_conv')

lemma dict_keys_update: "k \<in> set (dict_keys d) \<Longrightarrow> dict_keys (AList.update k v d) = dict_keys d"
  by (simp add: dict_keys_def AList.update_keys)

lemma scaled_one: "scaled 1 x = x"
  by (cases x) (simp_all add: scaled_def)

lemma scaled_power: "scaled (r ^ c) (scaled r x) = scaled (r ^ Suc c) x"
  by (cases x) (simp_all add: scaled_def)

lemma rescale_inner_None:
  assumes "rescale_inner ratio t s1 ks rows = (rows', None)" "dict_get t s1 = Inr r1" "distinct ks"
  shows "(\<forall>r. dict_keys (rows' r) = dict_keys (rows r))
       \<and> (\<forall>r b. dict_get (rows' r) b
             = (if r = r1 \<and> b \<in> set ks then scaled ratio (dict_get (rows r) b)
                else dict_get (rows r) b))"
  using assms(1,3)
proof (induction ks arbitrary: rows)
  case Nil
  then show ?case by simp
next
  case (Cons k ks)
  from Cons.prems(1) assms(2) obtain p where p: "dict_get (rows r1) k = Inr p"
    by (cases "dict_get (rows r1) k") (simp_all add: lookup2_def)
  define rows1 where "rows1 = rows(r1 := AList.update k (ratio * p) (rows r1))"
  have run: "rescale_inner ratio t s1 ks rows1 = (rows', None)"
    using Cons.prems(1) assms(2) p by (simp add: rows1_def lookup2_def store2_def)
  have k: "k \<notin> set ks" and d: "distinct ks" using Cons.prems(2) by simp_all
  from Cons.IH [OF run d]
  have keys: "\<And>r. dict_keys (rows' r) = dict_keys (rows1 r)"
    and look: "\<And>r b. dict_get (rows' r) b
             = (if r = r1 \<and> b \<in> set ks then scaled ratio (dict_get (rows1 r) b)
                else dict_get (rows1 r) b)"
    by simp_all
  have l1: "\<And>r b. dict_get (rows1 r) b
             = (if r = r1 \<and> b = k then Inr (ratio * p) else dict_get (rows r) b)"
    by (simp add: rows1_def dict_get_update)
  have k1: "dict_keys (rows1 r) = dict_keys (rows r)" for r
    using dict_keys_update [OF dict_get_key [OF p]] by (simp add: rows1_def)
  have "dict_get (rows' r) b
      = (if r = r1 \<and> b \<in> set (k # ks) then scaled ratio (dict_get (rows r) b)
         else dict_get (rows r) b)" for r b
  proof (cases "r = r1 \<and> b = k")
    case True
    then have "dict_get (rows' r) b = Inr (ratio * p)" using look [of r b] l1 [of r b] k by simp
    then show ?thesis using True p by (simp add: scaled_def)
  next
    case False
    then have "dict_get (rows1 r) b = dict_get (rows r) b" unfolding l1 [of r b] by (rule if_not_P)
    then show ?thesis using look [of r b] False by auto
  qed
  then show ?case using keys k1 by simp
qed

lemma rescale_outer_None:
  assumes "rescale_outer ratio t ks1 ks rows = (rows', None)" "distinct ks"
    and "set ks1 \<subseteq> set (dict_keys t)"
  shows "(\<forall>r. dict_keys (rows' r) = dict_keys (rows r))
       \<and> (\<forall>r b. dict_get (rows' r) b
             = (if b \<in> set ks
                then scaled (ratio ^ length (filter (\<lambda>k. dict_get t k = Inr r) ks1))
                       (dict_get (rows r) b)
                else dict_get (rows r) b))"
  using assms(1,3)
proof (induction ks1 arbitrary: rows)
  case Nil
  then show ?case by (simp add: scaled_one)
next
  case (Cons s1 ks1)
  from Cons.prems(2) obtain r1 where r1: "dict_get t s1 = Inr r1"
    using dict_get_of_key [of s1 t] by auto
  obtain rows1 e1 where i1: "rescale_inner ratio t s1 ks rows = (rows1, e1)"
    by (cases "rescale_inner ratio t s1 ks rows")
  with Cons.prems(1) have e1: "e1 = None" by (cases e1) simp_all
  with Cons.prems(1) i1 have run: "rescale_outer ratio t ks1 ks rows1 = (rows', None)" by simp
  have sub: "set ks1 \<subseteq> set (dict_keys t)" using Cons.prems(2) by simp
  from rescale_inner_None [OF i1 [unfolded e1] r1 assms(2)]
  have k1: "\<And>r. dict_keys (rows1 r) = dict_keys (rows r)"
    and l1: "\<And>r b. dict_get (rows1 r) b
             = (if r = r1 \<and> b \<in> set ks then scaled ratio (dict_get (rows r) b)
                else dict_get (rows r) b)"
    by simp_all
  from Cons.IH [OF run sub]
  have keys: "\<And>r. dict_keys (rows' r) = dict_keys (rows1 r)"
    and look: "\<And>r b. dict_get (rows' r) b
             = (if b \<in> set ks
                then scaled (ratio ^ length (filter (\<lambda>k. dict_get t k = Inr r) ks1))
                       (dict_get (rows1 r) b)
                else dict_get (rows1 r) b)"
    by simp_all
  have "dict_get (rows' r) b
      = (if b \<in> set ks
         then scaled (ratio ^ length (filter (\<lambda>k. dict_get t k = Inr r) (s1 # ks1)))
                (dict_get (rows r) b)
         else dict_get (rows r) b)" for r b
  proof (cases "r = r1")
    case True
    then have "length (filter (\<lambda>k. dict_get t k = Inr r) (s1 # ks1))
        = Suc (length (filter (\<lambda>k. dict_get t k = Inr r) ks1))"
      using r1 by simp
    then show ?thesis using look [of r b] l1 [of r b] True by (simp add: scaled_power)
  next
    case False
    then have "length (filter (\<lambda>k. dict_get t k = Inr r) (s1 # ks1))
        = length (filter (\<lambda>k. dict_get t k = Inr r) ks1)"
      using r1 by auto
    moreover have "dict_get (rows1 r) b = dict_get (rows r) b" using l1 [of r b] False by simp
    ultimately show ?thesis using look [of r b] by simp
  qed
  then show ?case using keys k1 by simp
qed

lemma adjust_probs_None:
  assumes "adjust_probs groups n t rows = (rows', None)" "distinct (dict_keys t)"
  shows "\<exists>expected_edges. expected_edges_of groups t rows = Inr expected_edges \<and> expected_edges \<noteq> 0
           \<and> (\<forall>r. dict_keys (rows' r) = dict_keys (rows r))
           \<and> (\<forall>r b. dict_get (rows' r) b
                 = (if b \<in> set (dict_keys t)
                    then scaled ((2 * real_of_int n / expected_edges) ^ sharing t r)
                           (dict_get (rows r) b)
                    else dict_get (rows r) b))"
proof -
  from assms(1) obtain E where E: "expected_edges_of groups t rows = Inr E"
    by (cases "expected_edges_of groups t rows") (simp_all add: adjust_probs_def)
  from assms(1) E have E0: "E \<noteq> 0" by (auto simp: adjust_probs_def split: if_splits)
  with assms(1) E
  have run: "rescale_outer (2 * real_of_int n / E) t (dict_keys t) (dict_keys t) rows = (rows', None)"
    by (simp add: adjust_probs_def Let_def)
  from rescale_outer_None [OF run assms(2) subset_refl] E E0 show ?thesis
    unfolding sharing_def by blast
qed

lemma sbm_returns:
  assumes "hopfield_sbm node_groups uniform edge_probs rows states n = (rows', Inr g)"
  shows "\<exists>h g'. states \<noteq> [] \<and> HopfieldGraph (empty_graph (length (hd states))) states = Inr h
           \<and> adjust_probs (node_groups h) n edge_probs rows = (rows', None)
           \<and> sbm_edges uniform edge_probs rows' states (lower_pairs (length (hd states))) h = Inr g'
           \<and> g = train g'"
proof -
  from assms obtain s0 ss where s: "states = s0 # ss"
    by (cases states) (simp_all add: hopfield_sbm_def)
  from assms s obtain h where h: "HopfieldGraph (empty_graph (length s0)) states = Inr h"
    by (cases "HopfieldGraph (empty_graph (length s0)) states") (simp_all add: hopfield_sbm_def Let_def)
  obtain t1 e1 where a: "adjust_probs (node_groups h) n edge_probs rows = (t1, e1)"
    by (cases "adjust_probs (node_groups h) n edge_probs rows")
  from assms s h a have e1: "e1 = None" by (cases e1) (simp_all add: hopfield_sbm_def Let_def)
  from assms s h a e1 obtain g'
    where g': "sbm_edges uniform edge_probs t1 states (lower_pairs (length s0)) h = Inr g'"
    by (cases "sbm_edges uniform edge_probs t1 states (lower_pairs (length s0)) h")
       (simp_all add: hopfield_sbm_def Let_def)
  from assms s h a e1 g' have "t1 = rows'" "g = train g'"
    by (simp_all add: hopfield_sbm_def Let_def)
  with s h a e1 g' show ?thesis by auto
qed

text \<open>
  C10, as the code has it. \<^verbatim>\<open>hopfield_sbm\<close> writes into the inner dicts of the caller's table and
  leaves the outer dict alone. When the call returns, every inner dict has the keys it had,
  and an entry under a key \<open>str2\<close> of the table has been multiplied by the ratio
  \<open>2 * num_edges / expected_edges\<close> once for every key of the table that holds its inner
  dict: by the ratio itself when one key holds it, by a power of the ratio when several
  keys share it, and not at all in a dict that the table does not hold. An entry under a
  key that is not a key of the table is as it was. Here \<open>expected_edges\<close> is the sum that
  \<^verbatim>\<open>adjust_probs\<close> computes from the old entries and the group sizes, and it is not 0. So the
  values of the table change unless the power of the ratio is 1 or the entry is 0.
\<close>

theorem sbm_rescales_once_per_key:
  assumes "hopfield_sbm node_groups uniform edge_probs rows states n = (rows', Inr g)"
    and "distinct (dict_keys edge_probs)"
  shows "\<exists>h expected_edges.
           HopfieldGraph (empty_graph (length (hd states))) states = Inr h
           \<and> expected_edges_of (node_groups h) edge_probs rows = Inr expected_edges
           \<and> expected_edges \<noteq> 0
           \<and> (\<forall>r. dict_keys (rows' r) = dict_keys (rows r))
           \<and> (\<forall>r str2. dict_get (rows' r) str2
                 = (if str2 \<in> set (dict_keys edge_probs)
                    then scaled ((2 * real_of_int n / expected_edges) ^ sharing edge_probs r)
                           (dict_get (rows r) str2)
                    else dict_get (rows r) str2))"
proof -
  from sbm_returns [OF assms(1)] obtain h
    where h: "HopfieldGraph (empty_graph (length (hd states))) states = Inr h"
      and a: "adjust_probs (node_groups h) n edge_probs rows = (rows', None)"
    by blast
  from adjust_probs_None [OF a assms(2)] h show ?thesis by blast
qed

theorem sbm_rescales_once_per_key_witness:
  "\<exists>expected_edges. expected_edges \<noteq> 0
     \<and> dict_get
          (fst (hopfield_sbm (\<lambda>g. [(''10'', [0]), (''11'', [1, 2])]) (\<lambda>i j. 1 / 2)
                  [(''10'', 0), (''11'', 0)] (\<lambda>r. [(''10'', 1 / 2), (''11'', 1 / 4)])
                  [[1, 1, 0], [0, 1, 0]] 3) 0) ''11''
       = scaled ((2 * real_of_int 3 / expected_edges) ^ 2) (Inr (1 / 4))"
proof -
  let ?t = "[(''10'', 0), (''11'', 0)] :: prob_table"
  let ?rows = "(\<lambda>r. [(''10'', 1 / 2), (''11'', 1 / 4)]) :: row_store"
  let ?run = "hopfield_sbm (\<lambda>g. [(''10'', [0]), (''11'', [1, 2])]) (\<lambda>i j. 1 / 2) ?t ?rows
                [[1, 1, 0], [0, 1, 0]] 3"
  have "snd ?run = Inr \<lparr>nodes = [[], [], []], adj_matrix = [[0, 1, 1], [1, 0, 1], [1, 1, 0]],
         weights = [[0, 0, 0], [0, 0, - 1], [0, - 1, 0]],
         full_weights = [[0, 0, 0], [0, 0, - 1], [0, - 1, 0]],
         stored_states = [[1, 1, 0], [0, 1, 0]]\<rparr>"
    by code_simp
  then have run: "?run = (fst ?run, Inr \<lparr>nodes = [[], [], []],
         adj_matrix = [[0, 1, 1], [1, 0, 1], [1, 1, 0]],
         weights = [[0, 0, 0], [0, 0, - 1], [0, - 1, 0]],
         full_weights = [[0, 0, 0], [0, 0, - 1], [0, - 1, 0]],
         stored_states = [[1, 1, 0], [0, 1, 0]]\<rparr>)"
    by (simp add: prod_eq_iff)
  have d: "distinct (dict_keys ?t)" by (simp add: dict_keys_def)
  have k: "''11'' \<in> set (dict_keys ?t)" by (simp add: dict_keys_def)
  have s: "sharing ?t 0 = 2" by code_simp
  have g: "dict_get (?rows 0) ''11'' = Inr (1 / 4)" by code_simp
  from sbm_rescales_once_per_key [OF run d] obtain E where "E \<noteq> 0"
    and "\<forall>r str2. dict_get (fst ?run r) str2
                 = (if str2 \<in> set (dict_keys ?t)
                    then scaled ((2 * real_of_int 3 / E) ^ sharing ?t r) (dict_get (?rows r) str2)
                    else dict_get (?rows r) str2)"
    by blast
  then have "E \<noteq> 0 \<and> dict_get (fst ?run 0) ''11'' = scaled ((2 * real_of_int 3 / E) ^ 2) (Inr (1 / 4))"
    using k s g by (simp only: if_True) simp
  then show ?thesis by blast
qed

text \<open>
  C10 as stated fails. With two nodes of one group, the table \<open>{'1': {'1': 0.5}}\<close> and the
  target 1 the call returns a model, the ratio is 1 and the table is as it was: it is
  preserved. With \<^verbatim>\<open>row = {'10': 0.5, '11': 0.25}\<close>, the table \<open>{'10': row, '11': row}\<close>, the
  groups \<open>{'10': [0], '11': [1, 2]}\<close> and the target 3 the sum is 3 and the ratio is 2, and
  the call returns with \<^verbatim>\<open>row = {'10': 2, '11': 1}\<close>: every entry has been multiplied by 4,
  the ratio once for each of the two keys, not by the ratio.
\<close>

theorem argument_table_not_always_rescaled:
  "snd (hopfield_sbm (\<lambda>g. [(''1'', [0, 1])]) (\<lambda>i j. 0) [(''1'', 0)] (\<lambda>r. [(''1'', 1 / 2)])
          [[1, 1]] 1)
     = Inr \<lparr>nodes = [[], []], adj_matrix = [[0, 1], [1, 0]], weights = [[0, 1], [1, 0]],
            full_weights = [[0, 1], [1, 0]], stored_states = [[1, 1]]\<rparr>
   \<and> fst (hopfield_sbm (\<lambda>g. [(''1'', [0, 1])]) (\<lambda>i j. 0) [(''1'', 0)] (\<lambda>r. [(''1'', 1 / 2)])
          [[1, 1]] 1) 0
     = [(''1'', 1 / 2)]
   \<and> snd (hopfield_sbm (\<lambda>g. [(''10'', [0]), (''11'', [1, 2])]) (\<lambda>i j. 1 / 2)
          [(''10'', 0), (''11'', 0)] (\<lambda>r. [(''10'', 1 / 2), (''11'', 1 / 4)])
          [[1, 1, 0], [0, 1, 0]] 3)
     = Inr \<lparr>nodes = [[], [], []], adj_matrix = [[0, 1, 1], [1, 0, 1], [1, 1, 0]],
            weights = [[0, 0, 0], [0, 0, - 1], [0, - 1, 0]],
            full_weights = [[0, 0, 0], [0, 0, - 1], [0, - 1, 0]],
            stored_states = [[1, 1, 0], [0, 1, 0]]\<rparr>
   \<and> expected_edges_of [(''10'', [0]), (''11'', [1, 2])] [(''10'', 0), (''11'', 0)]
        (\<lambda>r. [(''10'', 1 / 2), (''11'', 1 / 4)]) = Inr 3
   \<and> fst (hopfield_sbm (\<lambda>g. [(''10'', [0]), (''11'', [1, 2])]) (\<lambda>i j. 1 / 2)
          [(''10'', 0), (''11'', 0)] (\<lambda>r. [(''10'', 1 / 2), (''11'', 1 / 4)])
          [[1, 1, 0], [0, 1, 0]] 3) 0
     = [(''10'', 2), (''11'', 1)]"
  by code_simp

text \<open>
  C8. Two nodes of one group, the table \<open>{'1': {'1': 0.5}}\<close> (the key \<open>'1'\<close> holds the inner
  dict 0, and every dict of the store is \<open>{'1': 0.5}\<close>) and the target 1: the sum of line 145
  counts the group against itself as \<open>2 * 2\<close> pairs, so it is 2 and the ratio is 1; the
  table stays as it is, and the one node pair gets its edge with probability 0.5. The
  expected number of edges is 0.5, not the target 1.
\<close>

theorem sbm_expected_edges_miss_target:
  "fst (hopfield_sbm (\<lambda>g. [(''1'', [0, 1])]) (\<lambda>i j. 0) [(''1'', 0)] (\<lambda>r. [(''1'', 1 / 2)])
          [[1, 1]] 1)
     = (\<lambda>r. [(''1'', 1 / 2)])
   \<and> expected_edges_of [(''1'', [0, 1])] [(''1'', 0)] (\<lambda>r. [(''1'', 1 / 2)]) = Inr 2
   \<and> expected_num_edges [(''1'', 0)] (\<lambda>r. [(''1'', 1 / 2)]) [[1, 1]] (lower_pairs 2)
     = Inr (1 / 2)"
proof -
  let ?t = "[(''1'', 0)] :: prob_table"
  let ?rows = "(\<lambda>r. [(''1'', 1 / 2)]) :: row_store"
  have e: "expected_edges_of [(''1'', [0, 1])] ?t ?rows = Inr 2" by code_simp
  have n: "expected_num_edges ?t ?rows [[1, 1]] (lower_pairs 2) = Inr (1 / 2)" by code_simp
  have h: "HopfieldGraph (empty_graph (length [1, 1 :: int])) [[1, 1]]
      = Inr \<lparr>nodes = [[], []], adj_matrix = [[0, 0], [0, 0]], weights = [[0, 0], [0, 0]],
            full_weights = [[0, 0], [0, 0]], stored_states = [[1, 1]]\<rparr>"
    by code_simp
  have u: "?rows(0 := [(''1'', 1 / 2)]) = ?rows" by (rule ext) simp
  have "rescale_inner 1 ?t ''1'' [''1''] ?rows = (?rows(0 := [(''1'', 1 / 2)]), None)"
    by (simp add: lookup2_def store2_def dict_get_def)
  then have r: "rescale_outer 1 ?t [''1''] [''1''] ?rows = (?rows, None)"
    by (simp add: u)
  have k: "dict_keys ?t = [''1'']" by (simp add: dict_keys_def)
  have a: "adjust_probs [(''1'', [0, 1])] 1 ?t ?rows = (?rows, None)"
    unfolding adjust_probs_def e k by (simp add: r del: rescale_outer.simps)
  have g: "sbm_edges (\<lambda>i j. 0) ?t ?rows [[1, 1]] (lower_pairs (length [1, 1 :: int]))
        \<lparr>nodes = [[], []], adj_matrix = [[0, 0], [0, 0]], weights = [[0, 0], [0, 0]],
            full_weights = [[0, 0], [0, 0]], stored_states = [[1, 1]]\<rparr>
      = Inr \<lparr>nodes = [[], []], adj_matrix = [[0, 1], [1, 0]], weights = [[0, 0], [0, 0]],
            full_weights = [[0, 0], [0, 0]], stored_states = [[1, 1]]\<rparr>"
    by code_simp
  have "fst (hopfield_sbm (\<lambda>g. [(''1'', [0, 1])]) (\<lambda>i j. 0) ?t ?rows [[1, 1]] 1) = ?rows"
    by (simp only: hopfield_sbm_def list.case Let_def h sum.case a prod.case option.case g
          fst_conv)
  with e n show ?thesis by simp
qed


section \<open>The structural invariant\<close>

text \<open>
  The invariant over the \<open>n\<close> nodes of a model: the adjacency matrix is symmetric, and
  where it has a 0 the weight is 0.
\<close>

definition structural_invariant :: "nat \<Rightarrow> hopfield_graph \<Rightarrow> bool" where
  "structural_invariant n g =
     list_all (\<lambda>i. list_all (\<lambda>j. adj_matrix g ! i ! j = adj_matrix g ! j ! i
                                  \<and> (adj_matrix g ! i ! j = 0 \<longrightarrow> weights g ! i ! j = 0))
                         [0..<n])
       [0..<n]"

lemma structural_invariant_iff:
  "structural_invariant n g \<longleftrightarrow>
     (\<forall>i<n. \<forall>j<n. adj_matrix g ! i ! j = adj_matrix g ! j ! i
                    \<and> (adj_matrix g ! i ! j = 0 \<longrightarrow> weights g ! i ! j = 0))"
  unfolding structural_invariant_def list_all_iff by (simp add: Ball_def)

lemma structural_double_write:
  assumes sa: "square n (adj_matrix g)" and sw: "square n (weights g)" and i: "i < n" and j: "j < n"
    and inv: "structural_invariant n g" and vw: "v = 0 \<longrightarrow> w = 0"
    and a': "adj_matrix g' = clear_both (adj_matrix g) i j v"
    and w': "weights g' = clear_both (weights g) i j w"
  shows "structural_invariant n g'"
  unfolding structural_invariant_iff
proof (intro allI impI)
  fix a b assume an: "a < n" and bn: "b < n"
  define c where "c = ((a = i \<and> b = j) \<or> (a = j \<and> b = i))"
  have c': "((b = i \<and> a = j) \<or> (b = j \<and> a = i)) = c" unfolding c_def by blast
  have 1: "adj_matrix g' ! a ! b = (if c then v else adj_matrix g ! a ! b)"
    unfolding a' c_def using sa i j an bn by (rule nth_clear_both)
  have 2: "adj_matrix g' ! b ! a = (if c then v else adj_matrix g ! b ! a)"
    unfolding a' c' [symmetric] using sa i j bn an by (rule nth_clear_both)
  have 3: "weights g' ! a ! b = (if c then w else weights g ! a ! b)"
    unfolding w' c_def using sw i j an bn by (rule nth_clear_both)
  have old: "adj_matrix g ! a ! b = adj_matrix g ! b ! a"
    "adj_matrix g ! a ! b = 0 \<longrightarrow> weights g ! a ! b = 0"
    using inv an bn by (simp_all add: structural_invariant_iff)
  show "adj_matrix g' ! a ! b = adj_matrix g' ! b ! a
          \<and> (adj_matrix g' ! a ! b = 0 \<longrightarrow> weights g' ! a ! b = 0)"
    unfolding 1 2 3 using old vw by (cases c) simp_all
qed

lemma prune_loop_structural:
  assumes "queue_inv n pq g" "structural_invariant n g" "prune_loop k pq g = Inr g'"
  shows "structural_invariant n g'"
  using assms
proof (induction k arbitrary: pq g)
  case 0
  then show ?case by simp
next
  case (Suc k)
  have ne: "pq \<noteq> []" using Suc.prems(3) by (auto simp: heappop_empty)
  from queue_inv_step [OF Suc.prems(1) ne]
  obtain x pq' g1 where pop: "heappop pq = Inr (x, pq')"
    and ce: "clear_edge g (item x) = Inr g1"
    and inv1: "queue_inv n pq' g1"
    and ij: "snd (item x) < fst (item x)" "fst (item x) < n"
    by blast
  have wf: "well_formed n g" using Suc.prems(1) by (simp add: queue_inv_def)
  then have sa: "square n (adj_matrix g)" and sw: "square n (weights g)"
    by (simp_all add: well_formed_def)
  have jn: "snd (item x) < n" using ij by simp
  from clear_edge_eq [OF wf ij] ce
  have g1: "g1 = g\<lparr>weights := clear_both (weights g) (fst (item x)) (snd (item x)) 0,
                    adj_matrix := clear_both (adj_matrix g) (fst (item x)) (snd (item x)) 0\<rparr>"
    by simp
  have s1: "structural_invariant n g1"
    by (rule structural_double_write [OF sa sw ij(2) jn Suc.prems(2), of 0 0]) (simp_all add: g1)
  from Suc.prems(3) pop ce have "prune_loop k pq' g1 = Inr g'" by simp
  from Suc.IH [OF inv1 s1 this] show ?case .
qed

lemma structural_set_node_attributes [simp]:
  "structural_invariant n (set_node_attributes g) = structural_invariant n g"
  by (simp add: structural_invariant_def set_node_attributes_def)

lemma prune_edges_structural:
  assumes wf: "well_formed n g" and inv: "structural_invariant n g"
    and run: "prune_edges n g edges shuffle randbelow = Inr g'"
  shows "structural_invariant n g'"
proof -
  from prune_queue [OF wf, of shuffle randbelow] obtain pq
    where c: "collect_entries g (lower_pairs n) [] = Inr pq"
      and q: "queue_inv n (heapify (if shuffle then shuffle_list randbelow pq else pq)) g"
    by blast
  from run c obtain g1
    where l: "prune_loop (nat (int (num_edges g) - edges))
                (heapify (if shuffle then shuffle_list randbelow pq else pq)) g = Inr g1"
      and g': "g' = set_node_attributes g1"
    by (cases "prune_loop (nat (int (num_edges g) - edges))
                (heapify (if shuffle then shuffle_list randbelow pq else pq)) g")
       (auto simp: prune_edges_def Let_def)
  from prune_loop_structural [OF q inv l] g' show ?thesis by simp
qed

lemma train_structural:
  assumes sq: "square n (adj_matrix g)"
    and sym: "\<forall>i<n. \<forall>j<n. adj_matrix g ! i ! j = adj_matrix g ! j ! i"
  shows "structural_invariant n (train g)"
proof -
  have ln: "length (adj_matrix g) = n" using sq by (rule square_length)
  have adj: "adj_matrix (train g) = adj_matrix g" by (simp add: train_def Let_def)
  have w: "weights (train g) ! i ! j
      = (if getitem2 (adj_matrix g) i j \<in> {Inl IndexError, Inr 0} then 0
         else hebbian (stored_states g) i j)" if "i < n" "j < n" for i j
    using that by (simp add: train_def Let_def ln)
  show ?thesis
    unfolding structural_invariant_iff adj
    using sym w getitem2_square [OF sq] by simp
qed

lemma prune_start_None:
  assumes "prune_start patterns None = Inr (n, g0)"
  shows "well_formed n g0 \<and> structural_invariant n g0"
proof -
  from assms obtain p ps where p: "patterns = p # ps"
    by (cases patterns) (simp_all add: prune_start_def)
  from assms p obtain h where h: "HopfieldGraph (fully_connected (length p)) patterns = Inr h"
    by (cases "HopfieldGraph (fully_connected (length p)) patterns")
       (simp_all add: prune_start_def Let_def)
  have lf: "length (fully_connected (length p)) = length p" by (simp add: fully_connected_def)
  from h have all: "\<forall>s\<in>set patterns. length s = length p"
    by (auto simp: HopfieldGraph_def lf list_ex_iff split: if_splits)
  from assms p h have n: "n = length p" and g0: "g0 = train h"
    by (simp_all add: prune_start_def Let_def)
  from prune_start_patterns [OF p all] assms have wf: "well_formed n g0" by (auto simp: n)
  from h have ah: "adj_matrix h = fully_connected n"
    by (auto simp: HopfieldGraph_def n split: if_splits)
  have sq: "square n (adj_matrix h)" unfolding ah by (simp add: fully_connected_def)
  have "\<forall>i<n. \<forall>j<n. adj_matrix h ! i ! j = adj_matrix h ! j ! i"
    unfolding ah by (auto simp: fully_connected_def)
  from train_structural [OF sq this] wf show ?thesis by (simp add: g0)
qed



lemma lattice_inner_structural:
  assumes "square n (adj_matrix g)" "square n (weights g)" "i < n" "set js \<subseteq> {..<n}"
    "length neighbors = n" "structural_invariant n g"
    "lattice_inner intersection neighbors i js g = Inr g'"
  shows "structural_invariant n g' \<and> square n (adj_matrix g') \<and> square n (weights g')"
  using assms(1,2,4,6,7)
proof (induction js arbitrary: g)
  case Nil
  then show ?case by simp
next
  case (Cons j js)
  have j: "j < n" and js: "set js \<subseteq> {..<n}" using Cons.prems(3) by simp_all
  have gj: "getitem neighbors j = Inr (neighbors ! j)" using j assms(5) by (simp add: getitem_def)
  show ?case
  proof (cases "wanted intersection neighbors i j")
    case False
    then have "lattice_inner intersection neighbors i (j # js) g
        = lattice_inner intersection neighbors i js g"
      using gj by (simp add: wanted_def)
    with Cons.prems(5) have "lattice_inner intersection neighbors i js g = Inr g'" by simp
    from Cons.IH [OF Cons.prems(1,2) js Cons.prems(4) this] show ?thesis .
  next
    case True
    define g1 where "g1 = g\<lparr>adj_matrix := clear_both (adj_matrix g) i j 1,
                    weights := clear_both (weights g) i j (hebbian (stored_states g) i j)\<rparr>"
    have me: "make_edge g i j = Inr g1"
      unfolding g1_def using Cons.prems(1,2) assms(3) j by (rule make_edge_eq)
    have "lattice_inner intersection neighbors i (j # js) g
        = lattice_inner intersection neighbors i js g1"
      using gj me True by (simp add: wanted_def)
    with Cons.prems(5) have run: "lattice_inner intersection neighbors i js g1 = Inr g'" by simp
    have sa1: "square n (adj_matrix g1)"
      using square_clear_both [OF Cons.prems(1) assms(3) j] by (simp add: g1_def)
    have sw1: "square n (weights g1)"
      using square_clear_both [OF Cons.prems(2) assms(3) j] by (simp add: g1_def)
    have s1: "structural_invariant n g1"
      by (rule structural_double_write [OF Cons.prems(1,2) assms(3) j Cons.prems(4),
            of 1 "hebbian (stored_states g) i j"]) (simp_all add: g1_def)
    from Cons.IH [OF sa1 sw1 js s1 run] show ?thesis .
  qed
qed

lemma lattice_outer_structural:
  assumes "square n (adj_matrix g)" "square n (weights g)" "set is \<subseteq> {..<n}"
    "length neighbors = n" "\<forall>ns\<in>set neighbors. set ns \<subseteq> {..<n}" "structural_invariant n g"
    "lattice_outer intersection neighbors is g = Inr g'"
  shows "structural_invariant n g'"
  using assms(1,2,3,6,7)
proof (induction "is" arbitrary: g)
  case Nil
  then show ?case by simp
next
  case (Cons i "is")
  have i: "i < n" and is': "set is \<subseteq> {..<n}" using Cons.prems(3) by simp_all
  have gi: "getitem neighbors i = Inr (neighbors ! i)" using i assms(4) by (simp add: getitem_def)
  have ni: "set (neighbors ! i) \<subseteq> {..<n}" using assms(4,5) i by (metis nth_mem)
  from Cons.prems(5) gi obtain g1
    where r1: "lattice_inner intersection neighbors i (neighbors ! i) g = Inr g1"
      and r: "lattice_outer intersection neighbors is g1 = Inr g'"
    by (cases "lattice_inner intersection neighbors i (neighbors ! i) g") simp_all
  from lattice_inner_structural [OF Cons.prems(1,2) i ni assms(4) Cons.prems(4) r1]
  have "structural_invariant n g1" "square n (adj_matrix g1)" "square n (weights g1)"
    by simp_all
  from Cons.IH [OF this(2,3) is' this(1) r] show ?case .
qed

lemma lattice_structural:
  assumes "hopfield_lattice states k intersection = Inr g"
  shows "structural_invariant (length (hd states)) g"
proof -
  define n where "n = length (hd states)"
  from lattice_start [OF assms] obtain h nb where s: "states \<noteq> []"
    and h: "HopfieldGraph (empty_graph n) states = Inr h"
    and nb: "nearest_neighbors (train h) k = Inr nb"
    unfolding n_def by blast
  obtain s0 ss where st: "states = s0 # ss" using s by (cases states) auto
  have n: "n = length s0" by (simp add: n_def st)
  have ah: "adj_matrix h = empty_graph n" and nh: "nodes h = node_views (empty_graph n)"
    using h by (auto simp: HopfieldGraph_def split: if_splits)
  have le: "length (empty_graph n) = n" by (simp add: empty_graph_def)
  have sqh: "square n (adj_matrix h)" unfolding ah by (simp add: empty_graph_def)
  have symh: "\<forall>i<n. \<forall>j<n. adj_matrix h ! i ! j = adj_matrix h ! j ! i"
    unfolding ah by (simp add: empty_graph_def)
  have s0': "structural_invariant n (train h)" using sqh symh by (rule train_structural)
  have sa: "square n (adj_matrix (train h))" using sqh by (simp add: train_def Let_def)
  have sw: "square n (weights (train h))" by (simp add: train_def Let_def ah le)
  have ln: "length (nodes (train h)) = n"
    by (simp add: train_def Let_def nh node_views_def le)
  from nearest_neighbors_range [OF nb] ln
  have v: "length nb = n" "\<forall>ns\<in>set nb. set ns \<subseteq> {..<n}" by simp_all
  have r: "set [0..<n] \<subseteq> {..<n}" by auto
  from assms h nb obtain g' where run: "lattice_outer intersection nb [0..<n] (train h) = Inr g'"
    and g: "g = set_node_attributes g'"
    unfolding n
    by (cases "lattice_outer intersection nb [0..<length s0] (train h)")
       (simp_all add: hopfield_lattice_def st Let_def)
  from lattice_outer_structural [OF sa sw r v s0' run] show ?thesis
    unfolding n_def [symmetric] by (simp add: g)
qed

lemma symmetric_clear_both:
  assumes sq: "square n m" and i: "i < n" and j: "j < n"
    and sym: "\<forall>a<n. \<forall>b<n. m ! a ! b = m ! b ! a"
  shows "\<forall>a<n. \<forall>b<n. clear_both m i j v ! a ! b = clear_both m i j v ! b ! a"
proof (intro allI impI)
  fix a b assume an: "a < n" and bn: "b < n"
  define c where "c = ((a = i \<and> b = j) \<or> (a = j \<and> b = i))"
  have c': "((b = i \<and> a = j) \<or> (b = j \<and> a = i)) = c" unfolding c_def by blast
  have 1: "clear_both m i j v ! a ! b = (if c then v else m ! a ! b)"
    unfolding c_def using sq i j an bn by (rule nth_clear_both)
  have 2: "clear_both m i j v ! b ! a = (if c then v else m ! b ! a)"
    unfolding c' [symmetric] using sq i j bn an by (rule nth_clear_both)
  show "clear_both m i j v ! a ! b = clear_both m i j v ! b ! a"
    unfolding 1 2 using sym an bn by simp
qed

lemma sbm_edges_symmetric:
  assumes "square n (adj_matrix g)" "set ps \<subseteq> set (lower_pairs n)"
    "\<forall>a<n. \<forall>b<n. adj_matrix g ! a ! b = adj_matrix g ! b ! a"
    "sbm_edges uniform edge_probs rows states ps g = Inr g'"
  shows "square n (adj_matrix g') \<and> (\<forall>a<n. \<forall>b<n. adj_matrix g' ! a ! b = adj_matrix g' ! b ! a)"
  using assms
proof (induction ps arbitrary: g)
  case Nil
  then show ?case by simp
next
  case (Cons p ps)
  obtain i j where p: "p = (i, j)" by (cases p)
  have ij: "i < n" "j < n" and ps: "set ps \<subseteq> set (lower_pairs n)"
    using Cons.prems(2) by (auto simp: p set_lower_pairs)
  from Cons.prems(4) obtain pi where pi: "node_pattern edge_probs states i = Inr pi"
    by (cases "node_pattern edge_probs states i") (simp_all add: p)
  from Cons.prems(4) pi obtain pj where pj: "node_pattern edge_probs states j = Inr pj"
    by (cases "node_pattern edge_probs states j") (simp_all add: p)
  from Cons.prems(4) pi pj obtain prob where prob: "lookup2 edge_probs rows pi pj = Inr prob"
    by (cases "lookup2 edge_probs rows pi pj") (simp_all add: p)
  show ?case
  proof (cases "uniform i j < prob")
    case False
    with Cons.prems(4) pi pj prob have "sbm_edges uniform edge_probs rows states ps g = Inr g'"
      by (simp add: p)
    from Cons.IH [OF Cons.prems(1) ps Cons.prems(3) this] show ?thesis .
  next
    case True
    define g1 where "g1 = g\<lparr>adj_matrix := clear_both (adj_matrix g) i j 1\<rparr>"
    have "sbm_edges uniform edge_probs rows states (p # ps) g
        = sbm_edges uniform edge_probs rows states ps g1"
      unfolding p g1_def using pi pj prob True
      by (simp add: setitem2_twice [OF Cons.prems(1) ij])
    with Cons.prems(4) have run: "sbm_edges uniform edge_probs rows states ps g1 = Inr g'" by simp
    have sq1: "square n (adj_matrix g1)"
      using square_clear_both [OF Cons.prems(1) ij] by (simp add: g1_def)
    have sym1: "\<forall>a<n. \<forall>b<n. adj_matrix g1 ! a ! b = adj_matrix g1 ! b ! a"
      using symmetric_clear_both [OF Cons.prems(1) ij Cons.prems(3)] by (simp add: g1_def)
    from Cons.IH [OF sq1 ps sym1 run] show ?thesis .
  qed
qed

lemma sbm_structural:
  assumes "hopfield_sbm node_groups uniform edge_probs rows states num = (rows', Inr g)"
  shows "structural_invariant (length (hd states)) g"
proof -
  define n where "n = length (hd states)"
  from sbm_returns [OF assms] obtain h g'
    where h: "HopfieldGraph (empty_graph n) states = Inr h"
      and run: "sbm_edges uniform edge_probs rows' states (lower_pairs n) h = Inr g'"
      and g: "g = train g'"
    unfolding n_def by blast
  have ah: "adj_matrix h = empty_graph n"
    using h by (auto simp: HopfieldGraph_def split: if_splits)
  have sqh: "square n (adj_matrix h)" unfolding ah by (simp add: empty_graph_def)
  have symh: "\<forall>i<n. \<forall>j<n. adj_matrix h ! i ! j = adj_matrix h ! j ! i"
    unfolding ah by (simp add: empty_graph_def)
  from sbm_edges_symmetric [OF sqh _ symh run]
  have "square n (adj_matrix g')" "\<forall>a<n. \<forall>b<n. adj_matrix g' ! a ! b = adj_matrix g' ! b ! a"
    by simp_all
  then show ?thesis unfolding g n_def [symmetric] by (rule train_structural)
qed

text \<open>
  C3. Each of the three builders hands back a model with the invariant. The pruning keeps
  it when the model it starts from is well formed and has it, whether that model was
  supplied or trained here, and the fully connected model trained for a call without a
  base graph has it; the block model and the lattice, which start from the model without
  edges, give a model that has it. An edge is written or removed at \<open>(i, j)\<close> and \<open>(j, i)\<close>
  together, and a removed edge gets the weight 0 at both.
\<close>

theorem constructors_keep_structure:
  "(prune_start patterns graph = Inr (n, g0) \<and> well_formed n g0 \<and> structural_invariant n g0
      \<and> pruned_hopfield patterns edges graph shuffle randbelow = Inr g_pruned
      \<longrightarrow> structural_invariant n g_pruned)
   \<and> (prune_start patterns None = Inr (n, g0)
      \<and> pruned_hopfield patterns edges None shuffle randbelow = Inr g_pruned
      \<longrightarrow> structural_invariant n g0 \<and> structural_invariant n g_pruned)
   \<and> (hopfield_sbm node_groups uniform edge_probs rows states num = (rows', Inr g_block)
      \<longrightarrow> structural_invariant (length (hd states)) g_block)
   \<and> (hopfield_lattice states k intersection = Inr g_lattice
      \<longrightarrow> structural_invariant (length (hd states)) g_lattice)"
proof (intro conjI impI)
  assume a: "prune_start patterns graph = Inr (n, g0) \<and> well_formed n g0 \<and> structural_invariant n g0
      \<and> pruned_hopfield patterns edges graph shuffle randbelow = Inr g_pruned"
  then have "prune_edges n g0 edges shuffle randbelow = Inr g_pruned"
    by (auto simp: pruned_hopfield_def)
  with a show "structural_invariant n g_pruned" by (auto intro: prune_edges_structural)
next
  assume a: "prune_start patterns None = Inr (n, g0)
      \<and> pruned_hopfield patterns edges None shuffle randbelow = Inr g_pruned"
  then have s: "well_formed n g0 \<and> structural_invariant n g0" by (auto dest: prune_start_None)
  then show "structural_invariant n g0" by simp
  from a have "prune_edges n g0 edges shuffle randbelow = Inr g_pruned"
    by (auto simp: pruned_hopfield_def)
  with s show "structural_invariant n g_pruned" by (auto intro: prune_edges_structural)
next
  assume "hopfield_sbm node_groups uniform edge_probs rows states num = (rows', Inr g_block)"
  then show "structural_invariant (length (hd states)) g_block" by (rule sbm_structural)
next
  assume "hopfield_lattice states k intersection = Inr g_lattice"
  then show "structural_invariant (length (hd states)) g_lattice" by (rule lattice_structural)
qed

theorem constructors_keep_structure_witness:
  "(\<exists>g. pruned_hopfield [] 0
           (Some \<lparr>nodes = [[1], [0]], adj_matrix = [[0, 1], [1, 0]],
                  weights = [[0, - 1], [- 1, 0]], full_weights = [[0, - 1], [- 1, 0]],
                  stored_states = [[1, 0]]\<rparr>) False (\<lambda>i. 0) = Inr g
        \<and> structural_invariant 2 g)
   \<and> (\<exists>g. pruned_hopfield [[1, 0, 1]] 1 None True (\<lambda>i. 0) = Inr g \<and> structural_invariant 3 g)
   \<and> (\<exists>g. snd (hopfield_sbm (\<lambda>g. [(''10'', [0]), (''11'', [1, 2])]) (\<lambda>i j. 1 / 2)
                 [(''10'', 0), (''11'', 1)]
                 (\<lambda>r. if r = 0 then [(''10'', 1 / 2), (''11'', 1 / 4)]
                      else [(''10'', 1 / 4), (''11'', 1 / 2)])
                 [[1, 1, 0], [0, 1, 0]] 2) = Inr g
        \<and> structural_invariant 3 g)
   \<and> (\<exists>g. hopfield_lattice [[1, 0, 1]] 1 True = Inr g \<and> structural_invariant 3 g)"
proof (intro conjI)
  let ?b = "\<lparr>nodes = [[1], [0]], adj_matrix = [[0, 1], [1, 0]], weights = [[0, - 1], [- 1, 0]],
          full_weights = [[0, - 1], [- 1, 0]], stored_states = [[1, 0]]\<rparr>"
  let ?g = "\<lparr>nodes = [[], []], adj_matrix = [[0, 0], [0, 0]], weights = [[0, 0], [0, 0]],
      full_weights = [[0, - 1], [- 1, 0]], stored_states = [[1, 0]]\<rparr>"
  have st: "prune_start [] (Some ?b) = Inr (2, ?b)" by code_simp
  have wf: "well_formed 2 ?b" by code_simp
  have si: "structural_invariant 2 ?b" by code_simp
  have run: "pruned_hopfield [] 0 (Some ?b) False (\<lambda>i. 0) = Inr ?g" by code_simp
  have "structural_invariant 2 ?g"
    by (rule constructors_keep_structure [THEN conjunct1, THEN mp],
        intro conjI, rule st, rule wf, rule si, rule run)
  with run show "\<exists>g. pruned_hopfield [] 0 (Some ?b) False (\<lambda>i. 0) = Inr g
      \<and> structural_invariant 2 g"
    by blast
next
  let ?g = "\<lparr>nodes = [[2], [], [0]], adj_matrix = [[0, 0, 1], [0, 0, 0], [1, 0, 0]],
      weights = [[0, 0, 1], [0, 0, 0], [1, 0, 0]],
      full_weights = [[0, - 1, 1], [- 1, 0, - 1], [1, - 1, 0]], stored_states = [[1, 0, 1]]\<rparr>"
  have st: "prune_start [[1, 0, 1]] None
      = Inr (3, \<lparr>nodes = [[1, 2], [0, 2], [0, 1]],
            adj_matrix = [[0, 1, 1], [1, 0, 1], [1, 1, 0]],
            weights = [[0, - 1, 1], [- 1, 0, - 1], [1, - 1, 0]],
            full_weights = [[0, - 1, 1], [- 1, 0, - 1], [1, - 1, 0]],
            stored_states = [[1, 0, 1]]\<rparr>)"
    by code_simp
  have run: "pruned_hopfield [[1, 0, 1]] 1 None True (\<lambda>i. 0) = Inr ?g" by code_simp
  have "structural_invariant 3 ?g"
    by (rule constructors_keep_structure [THEN conjunct2, THEN conjunct1, THEN mp, THEN conjunct2],
        intro conjI, rule st, rule run)
  with run show "\<exists>g. pruned_hopfield [[1, 0, 1]] 1 None True (\<lambda>i. 0) = Inr g
      \<and> structural_invariant 3 g"
    by blast
next
  let ?run = "hopfield_sbm (\<lambda>g. [(''10'', [0]), (''11'', [1, 2])]) (\<lambda>i j. 1 / 2)
        [(''10'', 0), (''11'', 1)]
        (\<lambda>r. if r = 0 then [(''10'', 1 / 2), (''11'', 1 / 4)] else [(''10'', 1 / 4), (''11'', 1 / 2)])
        [[1, 1, 0], [0, 1, 0]] 2"
  let ?g = "\<lparr>nodes = [[], [], []], adj_matrix = [[0, 0, 0], [0, 0, 1], [0, 1, 0]],
         weights = [[0, 0, 0], [0, 0, - 1], [0, - 1, 0]],
         full_weights = [[0, 0, 0], [0, 0, - 1], [0, - 1, 0]],
         stored_states = [[1, 1, 0], [0, 1, 0]]\<rparr>"
  have s: "snd ?run = Inr ?g" by code_simp
  then have run: "?run = (fst ?run, Inr ?g)" by (simp add: prod_eq_iff)
  have "structural_invariant (length (hd [[1, 1, 0], [0, 1, 0 :: int]])) ?g"
    by (rule constructors_keep_structure [THEN conjunct2, THEN conjunct2, THEN conjunct1, THEN mp],
        rule run)
  then have "structural_invariant 3 ?g" by (simp add: eval_nat_numeral)
  with s show "\<exists>g. snd ?run = Inr g \<and> structural_invariant 3 g" by blast
next
  let ?g = "\<lparr>nodes = [[], [2], [1]], adj_matrix = [[0, 0, 0], [0, 0, 1], [0, 1, 0]],
      weights = [[0, 0, 0], [0, 0, - 1], [0, - 1, 0]],
      full_weights = [[0, - 1, 1], [- 1, 0, - 1], [1, - 1, 0]], stored_states = [[1, 0, 1]]\<rparr>"
  have run: "hopfield_lattice [[1, 0, 1]] 1 True = Inr ?g" by code_simp
  have "structural_invariant (length (hd [[1, 0, 1 :: int]])) ?g"
    by (rule constructors_keep_structure [THEN conjunct2, THEN conjunct2, THEN conjunct2, THEN mp],
        rule run)
  then have "structural_invariant 3 ?g" by (simp add: eval_nat_numeral)
  with run show "\<exists>g. hopfield_lattice [[1, 0, 1]] 1 True = Inr g \<and> structural_invariant 3 g"
    by blast
qed

end
